theory Spec2Isabelle
  imports Complex_Main
begin

section \<open>SpatialReader: acquisition pipeline and spectral aggregation (main.c)\<close>

text \<open>
  The embedding follows \<^verbatim>\<open>main.c\<close>. The process-scope variables of the C file are the
  fields of one record that every function takes and returns. \<^verbatim>\<open>fftw_real\<close>,
  \<^verbatim>\<open>float\<close> and \<^verbatim>\<open>double\<close> values are modelled as real numbers: rounding is
  not part of the model. An access outside an allocated buffer, a variable-length array
  of non-positive size and a signed overflow have no defined result in C; the model
  returns an error value there, so a result \<open>Inr\<close> says that none of them happened.
  An int division by zero is undefined as well (\<open>DivByZero\<close>).
  A floating-point division by zero gives an infinity or a NaN, which a real number
  cannot stand for: the model returns the error \<open>NotFinite\<close> there.
\<close>

subsection \<open>Constants, errors, checked array access\<close>

type_synonym fftw_real = real

definition PIPELINE_LEN :: nat where
  "PIPELINE_LEN = 100"

definition INT_MAX :: int where
  "INT_MAX = 2147483647"

datatype error = OutOfBounds | AllocAbort | IntOverflow | NotFinite | DivByZero

definition rd :: "'a list \<Rightarrow> nat \<Rightarrow> error + 'a" where
  "rd xs i = (if i < length xs then Inr (xs ! i) else Inl OutOfBounds)"

definition wr :: "'a list \<Rightarrow> nat \<Rightarrow> 'a \<Rightarrow> error + 'a list" where
  "wr xs i v = (if i < length xs then Inr (xs[i := v]) else Inl OutOfBounds)"

subsection \<open>calc\_amplitude\_spectrum\<close>

text \<open>
  The transform \<^verbatim>\<open>rfftw_one\<close> belongs to the FFTW library and is a parameter
  \<open>rfftw\<close> here: \<open>rfftw xs k\<close> is the entry \<open>k\<close> of the half-complex output for
  the input \<open>xs\<close>. The local array \<^verbatim>\<open>out\<close> has \<open>N\<close> entries by its declaration.
\<close>

text \<open>The loop \<^verbatim>\<open>for (k = 1; k < (N + 1) / 2; ++k)\<close>.\<close>

function amp_loop :: "fftw_real list \<Rightarrow> nat \<Rightarrow> nat \<Rightarrow> fftw_real list \<Rightarrow> error + fftw_real list" where
  "amp_loop out N k amp =
     (if k < (N + 1) div 2 then
        (case wr amp k (sqrt (out ! k * out ! k + out ! (N - k) * out ! (N - k))) of
           Inl e \<Rightarrow> Inl e
         | Inr amp' \<Rightarrow> amp_loop out N (k + 1) amp')
      else Inr amp)"
  by pat_completeness auto
termination
  by (relation "measure (\<lambda>(out, N, k, amp). (N + 1) div 2 - k)") auto

declare amp_loop.simps [simp del]

definition calc_amplitude_spectrum ::
  "(fftw_real list \<Rightarrow> nat \<Rightarrow> fftw_real) \<Rightarrow> fftw_real list \<Rightarrow> int \<Rightarrow> fftw_real list
     \<Rightarrow> error + fftw_real list" where
  "calc_amplitude_spectrum rfftw inp N amplitude_spectrum =
     (if N \<le> 0 then Inl OutOfBounds
      else if INT_MAX \<le> N then Inl IntOverflow
      else if length inp < nat N then Inl OutOfBounds
      else
        let n = nat N;
            out = map (rfftw (take n inp)) [0..<n]
        in (case wr amplitude_spectrum 0 (sqrt (out ! 0 * out ! 0)) of
              Inl e \<Rightarrow> Inl e
            | Inr a0 \<Rightarrow>
                (case amp_loop out n 1 a0 of
                   Inl e \<Rightarrow> Inl e
                 | Inr a1 \<Rightarrow>
                     if n mod 2 = 0
                     then wr a1 (n div 2) (sqrt (out ! (n div 2) * out ! (n div 2)))
                     else Inr a1)))"

subsection \<open>The variables of the program\<close>

text \<open>
  The cursors \<^verbatim>\<open>rbufi\<close>, \<^verbatim>\<open>ibptr\<close> and \<^verbatim>\<open>aind\<close> are C ints that start at 0 and are
  only incremented or reset to 0, so they are natural numbers here (a cursor that has
  left its buffer stops the model with \<open>OutOfBounds\<close> at the next access, long before
  an int could overflow); the options
  \<^verbatim>\<open>samplerate\<close>, \<^verbatim>\<open>maxfreq\<close> and \<^verbatim>\<open>avg_int_in_sec\<close> are integers of any sign.
  \<open>stdout\<close> collects the lines printed, \<open>csv\<close> the data rows appended to the CSV
  files (axis and values; file names, time stamps and header lines are not modelled),
  \<open>ncsv\<close> counts the calls of \<^verbatim>\<open>output_csv\<close>. The parameter \<^verbatim>\<open>dim\<close> of
  \<^verbatim>\<open>output_csv\<close> is written \<open>dm\<close>.
\<close>

record state =
  samplerate :: int
  maxfreq :: int
  avg_int_in_sec :: int
  max_instead_of_avg :: bool
  rbufi :: nat
  inbuf :: "fftw_real list list list"
  unproc :: "bool list"
  ibptr :: nat
  aind :: nat
  ampspec :: "fftw_real list list list"
  stdout :: "string list"
  csv :: "(nat \<times> real list) list"
  ncsv :: nat

text \<open>The static initialisers; \<^verbatim>\<open>NULL\<close> is the empty list.\<close>

definition init_state :: state where
  "init_state =
     \<lparr>samplerate = 1000, maxfreq = 150, avg_int_in_sec = 10, max_instead_of_avg = False,
      rbufi = 0, inbuf = [], unproc = replicate PIPELINE_LEN False, ibptr = 0, aind = 0,
      ampspec = [], stdout = [], csv = [], ncsv = 0\<rparr>"

subsection \<open>alloc\_spec\_buffers, open\_output and the start of main\<close>

text \<open>
  \<^verbatim>\<open>g_new0\<close> is GLib's: it returns zeroed memory, \<^verbatim>\<open>NULL\<close> for the count 0, and it
  aborts the program when the byte count overflows, which a negative count converted to
  \<^verbatim>\<open>gsize\<close> does, or when the memory is not there. How much memory there is lies
  outside the program: the parameter \<open>mem\<close> says, for a count \<open>n\<close>, whether the
  allocator meets the requests for \<open>n\<close> elements that this start-up makes.
\<close>

definition g_new0 :: "(int \<Rightarrow> bool) \<Rightarrow> int \<Rightarrow> 'a \<Rightarrow> error + 'a list" where
  "g_new0 mem n z =
     (if n < 0 then Inl AllocAbort
      else if n = 0 then Inr []
      else if mem n then Inr (replicate (nat n) z)
      else Inl AllocAbort)"

text \<open>
  \<^verbatim>\<open>alloc_spec_buffers\<close> makes its requests in this order: the \<open>PIPELINE_LEN\<close> slot
  pointers, per slot three axis pointers and three arrays of \<^verbatim>\<open>samplerate\<close> samples,
  the three window pointers, per axis \<^verbatim>\<open>avg_int_in_sec\<close> spectrum pointers and, for a
  window that is not empty, the spectra of \<^verbatim>\<open>samplerate / 2 + 1\<close> bins. The first abort
  ends the program, so one request stands for all the requests of its kind. The
  spectra are requested with a sample rate that is not negative, where
  \<^verbatim>\<open>samplerate / 2\<close> of C is \<open>div\<close>. The call of \<^verbatim>\<open>free_spec_buffers\<close> at the start
  releases the buffers of an earlier call and has no part in the result.
\<close>

definition alloc_spec_buffers :: "(int \<Rightarrow> bool) \<Rightarrow> state \<Rightarrow> error + state" where
  "alloc_spec_buffers mem st =
     (case g_new0 mem (int PIPELINE_LEN) ([] :: fftw_real list list) of
        Inl e \<Rightarrow> Inl e
      | Inr slots \<Rightarrow>
     (case g_new0 mem 3 ([] :: fftw_real list) of
        Inl e \<Rightarrow> Inl e
      | Inr axes \<Rightarrow>
     (case g_new0 mem (samplerate st) (0 :: fftw_real) of
        Inl e \<Rightarrow> Inl e
      | Inr axis \<Rightarrow>
     (case g_new0 mem (avg_int_in_sec st) ([] :: fftw_real list) of
        Inl e \<Rightarrow> Inl e
      | Inr win \<Rightarrow>
     (case (if 0 < avg_int_in_sec st
            then g_new0 mem (samplerate st div 2 + 1) (0 :: fftw_real)
            else Inr []) of
        Inl e \<Rightarrow> Inl e
      | Inr spec \<Rightarrow>
          Inr (st\<lparr>inbuf := map (\<lambda>_. map (\<lambda>_. axis) axes) slots,
                  ampspec := map (\<lambda>_. map (\<lambda>_. spec) win) axes\<rparr>))))))"

definition open_output :: "(int \<Rightarrow> bool) \<Rightarrow> state \<Rightarrow> error + state" where
  "open_output mem st = alloc_spec_buffers mem st"

text \<open>
  \<^verbatim>\<open>main\<close> and \<^verbatim>\<open>controlloop\<close> up to the loop that calls \<^verbatim>\<open>process\<close>, once the sensor
  is attached: \<open>parsed\<close> is the result of \<^verbatim>\<open>g_option_context_parse\<close>, which has stored
  the options in the state; \<open>info_only\<close> is the option of that name. No option sets
  \<^verbatim>\<open>samplerate\<close>: in the program it keeps its initial value 1000. Between
  \<^verbatim>\<open>open_output\<close> and the loop, \<^verbatim>\<open>controlloop\<close> passes \<^verbatim>\<open>(int)(1000 / samplerate)\<close> to
  the sensor library: an int division, undefined for the sample rate 0; its value does
  not enter the state. (The moving-average constant \<^verbatim>\<open>avgconst\<close> that \<^verbatim>\<open>controlloop\<close>
  computes first is a floating-point value used by the wav output only.)
\<close>

datatype outcome = InvalidOptions | InfoShown | Abort error | Processing state

definition main_startup :: "(int \<Rightarrow> bool) \<Rightarrow> bool \<Rightarrow> bool \<Rightarrow> state \<Rightarrow> outcome" where
  "main_startup mem parsed info_only st =
     (if \<not> parsed then InvalidOptions
      else if info_only then InfoShown
      else
        (case open_output mem st of
           Inl e \<Rightarrow> Abort e
         | Inr st' \<Rightarrow>
             if samplerate st' = 0 then Abort DivByZero else Processing st'))"

text \<open>The allocator meets every request that start-up makes in the state \<open>st\<close>.\<close>

definition grants :: "(int \<Rightarrow> bool) \<Rightarrow> state \<Rightarrow> bool" where
  "grants mem st \<longleftrightarrow>
     mem (int PIPELINE_LEN) \<and> mem 3 \<and>
     (samplerate st \<noteq> 0 \<longrightarrow> mem (samplerate st)) \<and>
     (avg_int_in_sec st \<noteq> 0 \<longrightarrow> mem (avg_int_in_sec st) \<and> mem (samplerate st div 2 + 1))"

subsection \<open>SpatialDataHandler\<close>

text \<open>
  One event of the sensor carries \<^verbatim>\<open>acceleration[0..2]\<close>. The optional wav output
  (\<^verbatim>\<open>write_wav\<close>) works on a copy of the event and on variables of its own and is left
  out.
\<close>

type_synonym accel = "real \<times> real \<times> real"

fun acceleration :: "accel \<Rightarrow> nat \<Rightarrow> real" where
  "acceleration (x, y, z) i = (if i = 0 then x else if i = 1 then y else z)"

text \<open>The assignment \<^verbatim>\<open>inbuf[p][i][r] = v\<close>.\<close>

definition store :: "fftw_real list list list \<Rightarrow> nat \<Rightarrow> nat \<Rightarrow> nat \<Rightarrow> fftw_real
    \<Rightarrow> error + fftw_real list list list" where
  "store buf p i r v =
     (case rd buf p of
        Inl e \<Rightarrow> Inl e
      | Inr slot \<Rightarrow>
          (case rd slot i of
             Inl e \<Rightarrow> Inl e
           | Inr axis \<Rightarrow>
               (case wr axis r v of
                  Inl e \<Rightarrow> Inl e
                | Inr axis' \<Rightarrow> Inr (buf[p := slot[i := axis']]))))"

text \<open>The body of the loop over the events of one call.\<close>

definition ingest_sample :: "state \<Rightarrow> accel \<Rightarrow> error + state" where
  "ingest_sample st d =
     (case store (inbuf st) (ibptr st) 0 (rbufi st) (acceleration d 0) of
        Inl e \<Rightarrow> Inl e
      | Inr b0 \<Rightarrow>
     (case store b0 (ibptr st) 1 (rbufi st) (acceleration d 1) of
        Inl e \<Rightarrow> Inl e
      | Inr b1 \<Rightarrow>
     (case store b1 (ibptr st) 2 (rbufi st) (acceleration d 2) of
        Inl e \<Rightarrow> Inl e
      | Inr b2 \<Rightarrow>
          let st1 = st\<lparr>inbuf := b2, rbufi := rbufi st + 1\<rparr> in
          if int (rbufi st1) = samplerate st1 then
            (case wr (unproc st1) (ibptr st1) True of
               Inl e \<Rightarrow> Inl e
             | Inr u \<Rightarrow>
                 let p = (if ibptr st1 + 1 \<ge> PIPELINE_LEN then 0 else ibptr st1 + 1) in
                 (case rd u p of
                    Inl e \<Rightarrow> Inl e
                  | Inr flag \<Rightarrow>
                      Inr (st1\<lparr>rbufi := 0, unproc := u, ibptr := p,
                             stdout := (if flag then stdout st1 @ [''Realtime error!'']
                                        else stdout st1)\<rparr>)))
          else Inr st1)))"

fun SpatialDataHandler :: "state \<Rightarrow> accel list \<Rightarrow> error + state" where
  "SpatialDataHandler st [] = Inr st"
| "SpatialDataHandler st (d # ds) =
     (case ingest_sample st d of
        Inl e \<Rightarrow> Inl e
      | Inr st' \<Rightarrow> SpatialDataHandler st' ds)"

subsection \<open>output\_csv\<close>

text \<open>
  The file system is outside the program: what happens to the \<open>n\<close>-th call of
  \<^verbatim>\<open>output_csv\<close> is given by a parameter \<open>env n\<close>. \<^verbatim>\<open>csv_prepare\<close> fails to open the
  file (\<open>PrepareFails\<close>), the second \<^verbatim>\<open>fopen\<close> fails (\<open>ReopenFails\<close>), the file opens and
  the \<^verbatim>\<open>fprintf\<close> calls fail (\<open>WriteFails\<close>; their results are not looked at by the
  code), or the row is written (\<open>SinkOK\<close>).
\<close>

datatype sink_status = PrepareFails | ReopenFails | WriteFails | SinkOK

text \<open>The read \<^verbatim>\<open>ampspec[dim][j][k]\<close>.\<close>

definition amp_at :: "state \<Rightarrow> nat \<Rightarrow> nat \<Rightarrow> nat \<Rightarrow> error + fftw_real" where
  "amp_at st dm j k =
     (case rd (ampspec st) dm of
        Inl e \<Rightarrow> Inl e
      | Inr win \<Rightarrow>
          (case rd win j of
             Inl e \<Rightarrow> Inl e
           | Inr spec \<Rightarrow> rd spec k))"

text \<open>The division \<^verbatim>\<open>v /= d\<close>.\<close>

definition fdiv :: "real \<Rightarrow> real \<Rightarrow> error + real" where
  "fdiv v d = (if d = 0 then Inl NotFinite else Inr (v / d))"

text \<open>The loop of the branch \<^verbatim>\<open>max_instead_of_avg\<close>, from \<open>j\<close> on.\<close>

function max_loop :: "state \<Rightarrow> nat \<Rightarrow> nat \<Rightarrow> nat \<Rightarrow> real \<Rightarrow> error + real" where
  "max_loop st dm k j v =
     (if int j < avg_int_in_sec st then
        (case amp_at st dm j k of
           Inl e \<Rightarrow> Inl e
         | Inr a \<Rightarrow>
             (case fdiv (if a > v \<or> j = 0 then a else v) (of_int (samplerate st) / 1000) of
                Inl e \<Rightarrow> Inl e
              | Inr v' \<Rightarrow> max_loop st dm k (j + 1) v'))
      else Inr v)"
  by pat_completeness auto
termination
  by (relation "measure (\<lambda>(st, dm, k, j, v). nat (avg_int_in_sec st) - j)") auto

declare max_loop.simps [simp del]

text \<open>The loop of the other branch, from \<open>j\<close> on.\<close>

function sum_loop :: "state \<Rightarrow> nat \<Rightarrow> nat \<Rightarrow> nat \<Rightarrow> real \<Rightarrow> error + real" where
  "sum_loop st dm k j v =
     (if int j < avg_int_in_sec st then
        (case amp_at st dm j k of
           Inl e \<Rightarrow> Inl e
         | Inr a \<Rightarrow> sum_loop st dm k (j + 1) (v + a))
      else Inr v)"
  by pat_completeness auto
termination
  by (relation "measure (\<lambda>(st, dm, k, j, v). nat (avg_int_in_sec st) - j)") auto

declare sum_loop.simps [simp del]

text \<open>The value printed for bin \<open>k\<close>: the body of the loop over \<open>k\<close>.\<close>

definition bin_value :: "state \<Rightarrow> nat \<Rightarrow> nat \<Rightarrow> error + real" where
  "bin_value st dm k =
     (if max_instead_of_avg st then max_loop st dm k 0 0
      else
        (case sum_loop st dm k 0 0 of
           Inl e \<Rightarrow> Inl e
         | Inr v \<Rightarrow>
             if avg_int_in_sec st * samplerate st < - INT_MAX - 1
                \<or> INT_MAX < avg_int_in_sec st * samplerate st
             then Inl IntOverflow
             else fdiv v (of_int (avg_int_in_sec st * samplerate st) / 1000)))"

text \<open>The loop \<^verbatim>\<open>for (int k = 0; k < maxfreq + 1; k++)\<close>, from \<open>k\<close> on.\<close>

function row_loop :: "state \<Rightarrow> nat \<Rightarrow> nat \<Rightarrow> real list \<Rightarrow> error + real list" where
  "row_loop st dm k row =
     (if int k < maxfreq st + 1 then
        (case bin_value st dm k of
           Inl e \<Rightarrow> Inl e
         | Inr v \<Rightarrow> row_loop st dm (k + 1) (row @ [v]))
      else Inr row)"
  by pat_completeness auto
termination
  by (relation "measure (\<lambda>(st, dm, k, row). nat (maxfreq st + 1) - k)") auto

declare row_loop.simps [simp del]

definition output_csv :: "(nat \<Rightarrow> sink_status) \<Rightarrow> state \<Rightarrow> nat \<Rightarrow> error + (bool \<times> state)" where
  "output_csv env st dm =
     (let s = env (ncsv st);
          st1 = st\<lparr>ncsv := ncsv st + 1\<rparr>
      in if s = PrepareFails then
           Inr (False, st1\<lparr>stdout := stdout st1 @ [''ERROR: could not open/create output file'']\<rparr>)
         else if s = ReopenFails then
           Inr (False, st1\<lparr>stdout := stdout st1 @ [''ERROR: could not reopen output file'']\<rparr>)
         else if INT_MAX \<le> maxfreq st1 then Inl IntOverflow
         else
           (case row_loop st1 dm 0 [] of
              Inl e \<Rightarrow> Inl e
            | Inr row \<Rightarrow>
                Inr (True, if s = SinkOK then st1\<lparr>csv := csv st1 @ [(dm, row)]\<rparr> else st1)))"

subsection \<open>process\<close>

text \<open>The loop \<^verbatim>\<open>while ((ptr >= PIPELINE_LEN) && (ptr >= 0)) ptr = ptr - PIPELINE_LEN\<close>.\<close>

function wrap_ptr :: "nat \<Rightarrow> nat" where
  "wrap_ptr ptr = (if ptr \<ge> PIPELINE_LEN then wrap_ptr (ptr - PIPELINE_LEN) else ptr)"
  by pat_completeness auto
termination
  by (relation "measure (\<lambda>ptr. ptr)") (auto simp: PIPELINE_LEN_def)

declare wrap_ptr.simps [simp del]

text \<open>The call \<^verbatim>\<open>calc_amplitude_spectrum(inbuf[ptr][i], samplerate, ampspec[i][aind])\<close>.\<close>

definition spectrum_axis :: "(fftw_real list \<Rightarrow> nat \<Rightarrow> fftw_real) \<Rightarrow> state \<Rightarrow> nat \<Rightarrow> nat
    \<Rightarrow> error + state" where
  "spectrum_axis rfftw st ptr i =
     (case rd (inbuf st) ptr of
        Inl e \<Rightarrow> Inl e
      | Inr slot \<Rightarrow>
     (case rd slot i of
        Inl e \<Rightarrow> Inl e
      | Inr inp \<Rightarrow>
     (case rd (ampspec st) i of
        Inl e \<Rightarrow> Inl e
      | Inr win \<Rightarrow>
     (case rd win (aind st) of
        Inl e \<Rightarrow> Inl e
      | Inr amp \<Rightarrow>
     (case calc_amplitude_spectrum rfftw inp (samplerate st) amp of
        Inl e \<Rightarrow> Inl e
      | Inr amp' \<Rightarrow> Inr (st\<lparr>ampspec := (ampspec st)[i := win[aind st := amp']]\<rparr>))))))"

text \<open>The three calls of \<^verbatim>\<open>output_csv\<close>; their results are dropped.\<close>

definition emit_all :: "(nat \<Rightarrow> sink_status) \<Rightarrow> state \<Rightarrow> error + state" where
  "emit_all env st =
     (case output_csv env st 0 of
        Inl e \<Rightarrow> Inl e
      | Inr (r0, s0) \<Rightarrow>
     (case output_csv env s0 1 of
        Inl e \<Rightarrow> Inl e
      | Inr (r1, s1) \<Rightarrow>
     (case output_csv env s1 2 of
        Inl e \<Rightarrow> Inl e
      | Inr (r2, s2) \<Rightarrow> Inr s2)))"

text \<open>What the body of the loop of \<^verbatim>\<open>process\<close> does once \<^verbatim>\<open>unproc[ptr]\<close> is set.\<close>

definition ingest_slot :: "(fftw_real list \<Rightarrow> nat \<Rightarrow> fftw_real) \<Rightarrow> (nat \<Rightarrow> sink_status)
    \<Rightarrow> state \<Rightarrow> nat \<Rightarrow> error + state" where
  "ingest_slot rfftw env st ptr0 =
     (let ptr = (if ptr0 \<ge> PIPELINE_LEN then 0 else ptr0) in
      case spectrum_axis rfftw st ptr 0 of
        Inl e \<Rightarrow> Inl e
      | Inr st0 \<Rightarrow>
     (case spectrum_axis rfftw st0 ptr 1 of
        Inl e \<Rightarrow> Inl e
      | Inr st1 \<Rightarrow>
     (case spectrum_axis rfftw st1 ptr 2 of
        Inl e \<Rightarrow> Inl e
      | Inr st2 \<Rightarrow>
          let st3 = st2\<lparr>aind := aind st2 + 1\<rparr> in
          (case (if int (aind st3) = avg_int_in_sec st3
                 then emit_all env (st3\<lparr>aind := 0\<rparr>)
                 else Inr st3) of
             Inl e \<Rightarrow> Inl e
           | Inr st4 \<Rightarrow>
               (case wr (unproc st4) ptr False of
                  Inl e \<Rightarrow> Inl e
                | Inr u \<Rightarrow> Inr (st4\<lparr>unproc := u\<rparr>))))))"

text \<open>The body of the loop of \<^verbatim>\<open>process\<close> for one \<open>k\<close>.\<close>

definition process_slot :: "(fftw_real list \<Rightarrow> nat \<Rightarrow> fftw_real) \<Rightarrow> (nat \<Rightarrow> sink_status)
    \<Rightarrow> state \<Rightarrow> nat \<Rightarrow> error + state" where
  "process_slot rfftw env st k =
     (let ptr = wrap_ptr (ibptr st + k + PIPELINE_LEN div 10) in
      case rd (unproc st) ptr of
        Inl e \<Rightarrow> Inl e
      | Inr flag \<Rightarrow> if flag then ingest_slot rfftw env st ptr else Inr st)"

fun process_from :: "(fftw_real list \<Rightarrow> nat \<Rightarrow> fftw_real) \<Rightarrow> (nat \<Rightarrow> sink_status)
    \<Rightarrow> state \<Rightarrow> nat list \<Rightarrow> error + state" where
  "process_from rfftw env st [] = Inr st"
| "process_from rfftw env st (k # ks) =
     (case process_slot rfftw env st k of
        Inl e \<Rightarrow> Inl e
      | Inr st' \<Rightarrow> process_from rfftw env st' ks)"

definition process :: "(fftw_real list \<Rightarrow> nat \<Rightarrow> fftw_real) \<Rightarrow> (nat \<Rightarrow> sink_status)
    \<Rightarrow> state \<Rightarrow> error + state" where
  "process rfftw env st = process_from rfftw env st [0..<PIPELINE_LEN]"

subsection \<open>Sequences of calls\<close>

text \<open>Several calls of the handler with no call of \<^verbatim>\<open>process\<close> between them.\<close>

fun feed :: "state \<Rightarrow> accel list list \<Rightarrow> error + state" where
  "feed st [] = Inr st"
| "feed st (b # bs) =
     (case SpatialDataHandler st b of
        Inl e \<Rightarrow> Inl e
      | Inr st' \<Rightarrow> feed st' bs)"

text \<open>
  The program as a whole: the sensor library calls the handler with a batch of events,
  the loop of \<^verbatim>\<open>controlloop\<close> calls \<^verbatim>\<open>process\<close>, in any order.
\<close>

datatype event = Samples "accel list" | Process

fun samples_of :: "event \<Rightarrow> nat" where
  "samples_of (Samples b) = length b"
| "samples_of Process = 0"

fun run :: "(fftw_real list \<Rightarrow> nat \<Rightarrow> fftw_real) \<Rightarrow> (nat \<Rightarrow> sink_status)
    \<Rightarrow> state \<Rightarrow> event list \<Rightarrow> error + state" where
  "run rfftw env st [] = Inr st"
| "run rfftw env st (Samples b # es) =
     (case SpatialDataHandler st b of
        Inl e \<Rightarrow> Inl e
      | Inr st' \<Rightarrow> run rfftw env st' es)"
| "run rfftw env st (Process # es) =
     (case process rfftw env st of
        Inl e \<Rightarrow> Inl e
      | Inr st' \<Rightarrow> run rfftw env st' es)"

subsection \<open>Allocated buffers and cursors in range\<close>

text \<open>The shape that \<^verbatim>\<open>alloc_spec_buffers\<close> gives to \<^verbatim>\<open>inbuf\<close> and to \<^verbatim>\<open>ampspec\<close>.\<close>

definition inbuf_shape :: "int \<Rightarrow> fftw_real list list list \<Rightarrow> bool" where
  "inbuf_shape R buf \<longleftrightarrow>
     length buf = PIPELINE_LEN \<and>
     (\<forall>slot \<in> set buf. length slot = 3 \<and> (\<forall>a \<in> set slot. int (length a) = R))"

definition ampspec_shape :: "int \<Rightarrow> int \<Rightarrow> fftw_real list list list \<Rightarrow> bool" where
  "ampspec_shape R W amp \<longleftrightarrow>
     length amp = 3 \<and>
     (\<forall>win \<in> set amp. int (length win) = W \<and> (\<forall>sp \<in> set win. int (length sp) = R div 2 + 1))"

text \<open>What the handler relies on.\<close>

definition producer_ok :: "state \<Rightarrow> bool" where
  "producer_ok st \<longleftrightarrow>
     inbuf_shape (samplerate st) (inbuf st) \<and> length (unproc st) = PIPELINE_LEN \<and>
     int (rbufi st) < samplerate st \<and> ibptr st < PIPELINE_LEN"

text \<open>The number of slots with the flag \<^verbatim>\<open>unproc\<close> set.\<close>

definition ready_count :: "state \<Rightarrow> nat" where
  "ready_count st = length (filter (\<lambda>b. b) (unproc st))"

text \<open>The number of lines \<^verbatim>\<open>Realtime error!\<close> printed.\<close>

definition overruns :: "state \<Rightarrow> nat" where
  "overruns st = length (filter (\<lambda>l. l = ''Realtime error!'') (stdout st))"

text \<open>The pipeline before the first event: buffers allocated, nothing written or printed.\<close>

definition empty_pipeline :: "state \<Rightarrow> bool" where
  "empty_pipeline st \<longleftrightarrow>
     producer_ok st \<and> rbufi st = 0 \<and> ibptr st = 0 \<and>
     unproc st = replicate PIPELINE_LEN False \<and> stdout st = [] \<and> csv st = [] \<and> ncsv st = 0"

text \<open>The state that \<^verbatim>\<open>alloc_spec_buffers\<close> leaves when no \<^verbatim>\<open>g_new0\<close> aborts.\<close>

definition started :: "state \<Rightarrow> state" where
  "started st =
     st\<lparr>inbuf := replicate PIPELINE_LEN (replicate 3 (replicate (nat (samplerate st)) 0)),
        ampspec := replicate 3 (replicate (nat (avg_int_in_sec st))
                     (replicate (nat (samplerate st div 2 + 1)) 0))\<rparr>"

text \<open>
  The producer's side of the state after \<open>t\<close> events in all, counted from the empty
  pipeline, when \<^verbatim>\<open>process\<close> has not run.
\<close>

definition after_samples :: "nat \<Rightarrow> state \<Rightarrow> bool" where
  "after_samples t st \<longleftrightarrow>
     producer_ok st \<and>
     rbufi st = t mod nat (samplerate st) \<and>
     ibptr st = (t div nat (samplerate st)) mod PIPELINE_LEN \<and>
     unproc st = map (\<lambda>i. i < t div nat (samplerate st)) [0..<PIPELINE_LEN] \<and>
     stdout st = replicate (t div nat (samplerate st) + 1 - PIPELINE_LEN) ''Realtime error!''"

text \<open>
  What \<^verbatim>\<open>process\<close> and \<^verbatim>\<open>output_csv\<close> rely on: a positive sample rate and window
  length, \<^verbatim>\<open>maxfreq\<close> within the spectrum, no overflow in \<^verbatim>\<open>avg_int_in_sec * samplerate\<close>,
  allocated buffers, the read cursors in range.
\<close>

definition config_ok :: "state \<Rightarrow> bool" where
  "config_ok st \<longleftrightarrow>
     0 < samplerate st \<and> samplerate st < INT_MAX \<and> 0 < avg_int_in_sec st \<and>
     maxfreq st \<le> samplerate st div 2 \<and> avg_int_in_sec st * samplerate st \<le> INT_MAX"

definition consumer_ok :: "state \<Rightarrow> bool" where
  "consumer_ok st \<longleftrightarrow>
     config_ok st \<and> inbuf_shape (samplerate st) (inbuf st) \<and>
     ampspec_shape (samplerate st) (avg_int_in_sec st) (ampspec st) \<and>
     length (unproc st) = PIPELINE_LEN \<and> ibptr st < PIPELINE_LEN \<and>
     int (aind st) < avg_int_in_sec st"

subsection \<open>The emitted values as the specification words them\<close>

text \<open>The values of bin \<open>k\<close> in the window of axis \<open>dm\<close>, oldest position first.\<close>

definition window_bins :: "state \<Rightarrow> nat \<Rightarrow> nat \<Rightarrow> real list" where
  "window_bins st dm k = map (\<lambda>j. ampspec st ! dm ! j ! k) [0..<nat (avg_int_in_sec st)]"

text \<open>
  The reference running maximum of the specification: at every position \<open>j\<close> the
  accumulator \<open>v\<close> becomes the entry when the entry exceeds \<open>v\<close> or \<open>j = 0\<close>, and is then
  divided by \<open>d\<close>.
\<close>

fun reference_max :: "real \<Rightarrow> nat \<Rightarrow> real \<Rightarrow> real list \<Rightarrow> real" where
  "reference_max d j v [] = v"
| "reference_max d j v (a # as) =
     reference_max d (Suc j) ((if v < a \<or> j = 0 then a else v) / d) as"

text \<open>The mean of the specification: the sum of the entries over \<open>W * R / 1000\<close>.\<close>

definition reference_mean :: "int \<Rightarrow> int \<Rightarrow> real list \<Rightarrow> real" where
  "reference_mean W R xs = sum_list xs / (of_int W * of_int R / 1000)"

definition emitted_value :: "state \<Rightarrow> nat \<Rightarrow> nat \<Rightarrow> real" where
  "emitted_value st dm k =
     (if max_instead_of_avg st
      then reference_max (of_int (samplerate st) / 1000) 0 0 (window_bins st dm k)
      else reference_mean (avg_int_in_sec st) (samplerate st) (window_bins st dm k))"

definition emitted_row :: "state \<Rightarrow> nat \<Rightarrow> real list" where
  "emitted_row st dm = map (emitted_value st dm) [0..<nat (maxfreq st + 1)]"

text \<open>
  A state after start-up with a window of two spectra: every bin of the first spectrum
  of each axis is \<open>a\<close>, every bin of the second is \<open>b\<close>.
\<close>

definition window_example :: "int \<Rightarrow> bool \<Rightarrow> real \<Rightarrow> real \<Rightarrow> state" where
  "window_example R mx a b =
     (started (init_state\<lparr>samplerate := R, maxfreq := 0, avg_int_in_sec := 2,
                           max_instead_of_avg := mx\<rparr>))
       \<lparr>ampspec := replicate 3 [replicate (nat (R div 2 + 1)) a, replicate (nat (R div 2 + 1)) b]\<rparr>"

subsection \<open>Draining as the specification words it\<close>

text \<open>
  \<^verbatim>\<open>drain_ready\<close> of the specification over a given order of slots: a slot whose ready
  flag is set is processed (one spectrum per axis into the window, then the fill index)
  and its flag is cleared afterwards; a slot that is not ready is passed over.
\<close>

fun drain_ready :: "(fftw_real list \<Rightarrow> nat \<Rightarrow> fftw_real) \<Rightarrow> (nat \<Rightarrow> sink_status)
    \<Rightarrow> state \<Rightarrow> nat list \<Rightarrow> error + state" where
  "drain_ready rfftw env st [] = Inr st"
| "drain_ready rfftw env st (p # ps) =
     (if unproc st ! p then
        (case ingest_slot rfftw env st p of
           Inl e \<Rightarrow> Inl e
         | Inr st' \<Rightarrow> drain_ready rfftw env st' ps)
      else drain_ready rfftw env st ps)"

text \<open>
  The \<open>PIPELINE_LEN\<close> slots in increasing circular order, from the slot
  \<open>PIPELINE_LEN div 10\<close> positions after the write pointer.
\<close>

definition scan_order :: "state \<Rightarrow> nat list" where
  "scan_order st =
     map (\<lambda>k. (ibptr st + PIPELINE_LEN div 10 + k) mod PIPELINE_LEN) [0..<PIPELINE_LEN]"

subsection \<open>Properties of calc\_amplitude\_spectrum\<close>

lemma amp_loop_ok:
  "(N + 1) div 2 \<le> length amp \<Longrightarrow>
   \<exists>amp'. amp_loop out N k amp = Inr amp' \<and> length amp' = length amp \<and>
     (\<forall>i < length amp. amp' ! i =
        (if k \<le> i \<and> i < (N + 1) div 2
         then sqrt (out ! i * out ! i + out ! (N - i) * out ! (N - i))
         else amp ! i))"
proof (induction out N k amp rule: amp_loop.induct)
  case (1 out N k amp)
  show ?case
  proof (cases "k < (N + 1) div 2")
    case False
    then show ?thesis by (subst amp_loop.simps) simp
  next
    case True
    let ?v = "sqrt (out ! k * out ! k + out ! (N - k) * out ! (N - k))"
    from True "1.prems" have klen: "k < length amp" by simp
    then have w: "wr amp k ?v = Inr (amp[k := ?v])" by (simp add: wr_def)
    from "1.prems" have "(N + 1) div 2 \<le> length (amp[k := ?v])" by simp
    from "1.IH" [OF True w this]
    obtain amp' where
      r: "amp_loop out N (k + 1) (amp[k := ?v]) = Inr amp'" and
      l: "length amp' = length amp" and
      c: "\<forall>i < length amp. amp' ! i =
            (if k + 1 \<le> i \<and> i < (N + 1) div 2
             then sqrt (out ! i * out ! i + out ! (N - i) * out ! (N - i))
             else amp[k := ?v] ! i)"
      by auto
    have e: "amp_loop out N k amp = Inr amp'"
      using True w r by (subst amp_loop.simps) simp
    have "\<forall>i < length amp. amp' ! i =
        (if k \<le> i \<and> i < (N + 1) div 2
         then sqrt (out ! i * out ! i + out ! (N - i) * out ! (N - i))
         else amp ! i)"
    proof (intro allI impI)
      fix i assume i: "i < length amp"
      show "amp' ! i =
        (if k \<le> i \<and> i < (N + 1) div 2
         then sqrt (out ! i * out ! i + out ! (N - i) * out ! (N - i))
         else amp ! i)"
      proof (cases "i = k")
        case True
        with c i klen \<open>k < (N + 1) div 2\<close> show ?thesis by simp
      next
        case False
        with c i show ?thesis by (simp add: Suc_le_eq less_le)
      qed
    qed
    with e l show ?thesis by blast
  qed
qed

lemma calc_amplitude_spectrum_result:
  assumes N: "0 < N" "N < INT_MAX" and inp: "nat N \<le> length inp"
    and amp: "length amp = nat N div 2 + 1"
  shows "\<exists>amp'. calc_amplitude_spectrum rfftw inp N amp = Inr amp' \<and>
     length amp' = nat N div 2 + 1 \<and>
     amp' ! 0 = \<bar>rfftw (take (nat N) inp) 0\<bar> \<and>
     (\<forall>k. 0 < k \<and> 2 * k < nat N \<longrightarrow>
        amp' ! k = sqrt ((rfftw (take (nat N) inp) k)\<^sup>2 + (rfftw (take (nat N) inp) (nat N - k))\<^sup>2)) \<and>
     (even N \<longrightarrow> amp' ! (nat N div 2) = \<bar>rfftw (take (nat N) inp) (nat N div 2)\<bar>) \<and>
     (\<forall>k \<le> nat N div 2. 0 \<le> amp' ! k)"
proof -
  define n where "n = nat N"
  define f where "f = rfftw (take n inp)"
  define out where "out = map f [0..<n]"
  have n0: "0 < n" using N by (simp add: n_def)
  have o: "\<And>i. i < n \<Longrightarrow> out ! i = f i" by (simp add: out_def)
  define a0 where "a0 = amp[0 := sqrt (out ! 0 * out ! 0)]"
  have w0: "wr amp 0 (sqrt (out ! 0 * out ! 0)) = Inr a0"
    using amp by (simp add: wr_def a0_def)
  have la0: "length a0 = n div 2 + 1" using amp by (simp add: a0_def n_def)
  have "(n + 1) div 2 \<le> length a0" using la0 by simp
  from amp_loop_ok [OF this, where out = out and k = 1]
  obtain a1 where a1: "amp_loop out n 1 a0 = Inr a1" and la1: "length a1 = length a0"
    and c1: "\<forall>i < length a0. a1 ! i =
        (if 1 \<le> i \<and> i < (n + 1) div 2
         then sqrt (out ! i * out ! i + out ! (n - i) * out ! (n - i))
         else a0 ! i)" by blast
  define r where "r = (if n mod 2 = 0 then a1[n div 2 := sqrt (out ! (n div 2) * out ! (n div 2))] else a1)"
  have wn: "wr a1 (n div 2) v = Inr (a1[n div 2 := v])" for v
    using la1 la0 by (simp add: wr_def)
  have "calc_amplitude_spectrum rfftw inp N amp =
      (case wr amp 0 (sqrt (out ! 0 * out ! 0)) of
         Inl e \<Rightarrow> Inl e
       | Inr a0 \<Rightarrow>
           (case amp_loop out n 1 a0 of
              Inl e \<Rightarrow> Inl e
            | Inr a1 \<Rightarrow>
                if n mod 2 = 0
                then wr a1 (n div 2) (sqrt (out ! (n div 2) * out ! (n div 2)))
                else Inr a1))"
    using N inp unfolding calc_amplitude_spectrum_def Let_def n_def f_def out_def by simp
  also have "\<dots> = Inr r"
    by (simp only: w0 a1 wn sum.case r_def if_distrib [of Inr, symmetric])
  finally have res: "calc_amplitude_spectrum rfftw inp N amp = Inr r" .
  have lr: "length r = n div 2 + 1" using la1 la0 by (simp add: r_def)
  have b0: "r ! 0 = \<bar>f 0\<bar>"
  proof -
    have "a1 ! 0 = a0 ! 0" using c1 la0 by simp
    also have "\<dots> = \<bar>out ! 0\<bar>" using amp by (simp add: a0_def)
    finally have "a1 ! 0 = \<bar>f 0\<bar>" using o n0 by simp
    moreover have "n mod 2 = 0 \<Longrightarrow> n div 2 \<noteq> 0" using n0 by presburger
    ultimately show ?thesis by (simp add: r_def)
  qed
  have pair: "r ! k = sqrt ((f k)\<^sup>2 + (f (n - k))\<^sup>2)" if k: "0 < k" "2 * k < n" for k
  proof -
    have kl: "k < length a0" using k la0 by simp
    have kr: "1 \<le> k \<and> k < (n + 1) div 2" using k by presburger
    have "a1 ! k = sqrt (out ! k * out ! k + out ! (n - k) * out ! (n - k))"
      using c1 kl kr by simp
    also have "\<dots> = sqrt ((f k)\<^sup>2 + (f (n - k))\<^sup>2)"
      using o [of k] o [of "n - k"] k by (simp add: power2_eq_square)
    finally have "a1 ! k = sqrt ((f k)\<^sup>2 + (f (n - k))\<^sup>2)" .
    moreover have "n mod 2 = 0 \<longrightarrow> n div 2 \<noteq> k" using k by presburger
    ultimately show ?thesis by (auto simp add: r_def)
  qed
  have nyq: "r ! (n div 2) = \<bar>f (n div 2)\<bar>" if "even n"
  proof -
    have "n div 2 < length a1" using la1 la0 by simp
    moreover have "n div 2 < n" using n0 by simp
    ultimately show ?thesis using that o [of "n div 2"] by (simp add: r_def)
  qed
  have nonneg: "0 \<le> r ! k" if "k \<le> n div 2" for k
  proof -
    have "k = 0 \<or> (0 < k \<and> 2 * k < n) \<or> (even n \<and> k = n div 2)"
      using that by presburger
    then consider "k = 0" | "0 < k" "2 * k < n" | "even n" "k = n div 2"
      by blast
    then show ?thesis
    proof cases
      case 1 then show ?thesis using b0 by simp
    next
      case 2 then show ?thesis using pair by simp
    next
      case 3 then show ?thesis using nyq by simp
    qed
  qed
  have "even N \<longleftrightarrow> even n" using N by (simp add: n_def even_nat_iff)
  with res lr b0 pair nyq nonneg show ?thesis
    unfolding n_def f_def by blast
qed

text \<open>
  Claim C4. For a length \<open>N\<close> that \<^verbatim>\<open>calc_amplitude_spectrum\<close> can be called with
  (\<open>0 < N < INT_MAX\<close>, \<open>N\<close> samples, a result buffer of \<open>N div 2 + 1\<close> entries), the
  function returns \<open>N div 2 + 1\<close> bins: bin 0 is the absolute value of the DC
  coefficient, each bin \<open>k\<close> with \<open>0 < k\<close> and \<open>2 k < N\<close> is
  \<open>sqrt (out[k]\<^sup>2 + out[N - k]\<^sup>2)\<close>, for an even \<open>N\<close> bin \<open>N div 2\<close> is the absolute
  value of the Nyquist coefficient, and no bin is negative.
\<close>

theorem C4_amplitude_spectrum_bins:
  assumes "0 < N" and "N < INT_MAX" and "nat N \<le> length inp"
    and "length amp = nat N div 2 + 1"
  shows "\<exists>amp'. calc_amplitude_spectrum rfftw inp N amp = Inr amp' \<and>
     length amp' = nat N div 2 + 1 \<and>
     amp' ! 0 = \<bar>rfftw (take (nat N) inp) 0\<bar> \<and>
     (\<forall>k. 0 < k \<and> 2 * k < nat N \<longrightarrow>
        amp' ! k = sqrt ((rfftw (take (nat N) inp) k)\<^sup>2 + (rfftw (take (nat N) inp) (nat N - k))\<^sup>2)) \<and>
     (even N \<longrightarrow> amp' ! (nat N div 2) = \<bar>rfftw (take (nat N) inp) (nat N div 2)\<bar>) \<and>
     (\<forall>k \<le> nat N div 2. 0 \<le> amp' ! k)"
  using assms by (rule calc_amplitude_spectrum_result)

text \<open>The transform of two samples is their sum and their difference.\<close>

theorem C4_amplitude_spectrum_bins_witness:
  "(0 :: int) < 2 \<and> (2 :: int) < INT_MAX \<and> nat 2 \<le> length [3, 1 :: real] \<and>
   length [0, 0 :: real] = nat 2 div 2 + 1 \<and>
   (\<exists>amp'. calc_amplitude_spectrum
        (\<lambda>xs k. if k = 0 then xs ! 0 + xs ! 1 else xs ! 0 - xs ! 1) [3, 1] 2 [0, 0] = Inr amp' \<and>
      length amp' = 2 \<and> amp' ! 0 = 4 \<and> amp' ! 1 = 2)"
proof -
  have h: "(0 :: int) < 2" "(2 :: int) < INT_MAX" "nat 2 \<le> length [3, 1 :: real]"
    "length [0, 0 :: real] = nat 2 div 2 + 1"
    by (simp_all add: INT_MAX_def)
  from C4_amplitude_spectrum_bins [OF h,
      of "\<lambda>xs k. if k = 0 then xs ! 0 + xs ! 1 else xs ! 0 - xs ! 1"]
  obtain amp' where
    "calc_amplitude_spectrum
        (\<lambda>xs k. if k = 0 then xs ! 0 + xs ! 1 else xs ! 0 - xs ! 1) [3, 1] 2 [0, 0] = Inr amp'"
    "length amp' = 2" "amp' ! 0 = 4" "amp' ! 1 = 2"
    by auto
  with h show ?thesis by blast
qed

subsection \<open>The handler on allocated buffers\<close>

lemma inbuf_shape_update:
  assumes "inbuf_shape R buf" and "p < PIPELINE_LEN" and "i < 3"
  shows "inbuf_shape R (buf[p := (buf ! p)[i := (buf ! p ! i)[r := v]]])"
proof -
  from assms have pl: "p < length buf" by (simp add: inbuf_shape_def)
  then have slot: "buf ! p \<in> set buf" by simp
  with assms have ls: "length (buf ! p) = 3" and la: "\<forall>a \<in> set (buf ! p). int (length a) = R"
    by (auto simp: inbuf_shape_def)
  from ls assms have "buf ! p ! i \<in> set (buf ! p)" by simp
  with la have lai: "int (length (buf ! p ! i)) = R" by blast
  let ?a = "(buf ! p ! i)[r := v]"
  let ?s = "(buf ! p)[i := ?a]"
  have "set ?s \<subseteq> insert ?a (set (buf ! p))" by (rule set_update_subset_insert)
  with la lai have la': "\<forall>a \<in> set ?s. int (length a) = R" by auto
  have "set (buf[p := ?s]) \<subseteq> insert ?s (set buf)" by (rule set_update_subset_insert)
  with la' ls assms show ?thesis by (auto simp: inbuf_shape_def)
qed

lemma store_ok:
  assumes "inbuf_shape R buf" and "p < PIPELINE_LEN" and "i < 3" and "int r < R"
  shows "store buf p i r v = Inr (buf[p := (buf ! p)[i := (buf ! p ! i)[r := v]]])"
proof -
  from assms have pl: "p < length buf" by (simp add: inbuf_shape_def)
  then have slot: "buf ! p \<in> set buf" by simp
  with assms have ls: "length (buf ! p) = 3" and la: "\<forall>a \<in> set (buf ! p). int (length a) = R"
    by (auto simp: inbuf_shape_def)
  from ls assms have "buf ! p ! i \<in> set (buf ! p)" by simp
  with la have "int (length (buf ! p ! i)) = R" by blast
  with assms have "r < length (buf ! p ! i)" by simp
  with pl ls assms show ?thesis by (simp add: store_def rd_def wr_def)
qed

lemma ingest_sample_ok:
  assumes "producer_ok st"
  shows "\<exists>b. inbuf_shape (samplerate st) b \<and>
     ingest_sample st d =
       Inr (if int (rbufi st) + 1 = samplerate st
            then st\<lparr>inbuf := b, rbufi := 0, unproc := (unproc st)[ibptr st := True],
                   ibptr := (ibptr st + 1) mod PIPELINE_LEN,
                   stdout := (if (unproc st)[ibptr st := True] ! ((ibptr st + 1) mod PIPELINE_LEN)
                              then stdout st @ [''Realtime error!''] else stdout st)\<rparr>
            else st\<lparr>inbuf := b, rbufi := rbufi st + 1\<rparr>)"
proof -
  let ?R = "samplerate st" and ?p = "ibptr st" and ?r = "rbufi st"
  from assms have sh: "inbuf_shape ?R (inbuf st)" and p: "?p < PIPELINE_LEN"
    and r: "int ?r < ?R" and u: "length (unproc st) = PIPELINE_LEN"
    by (simp_all add: producer_ok_def)
  define b0 where "b0 = (inbuf st)[?p := (inbuf st ! ?p)[0 := (inbuf st ! ?p ! 0)[?r := acceleration d 0]]]"
  define b1 where "b1 = b0[?p := (b0 ! ?p)[1 := (b0 ! ?p ! 1)[?r := acceleration d 1]]]"
  define b2 where "b2 = b1[?p := (b1 ! ?p)[2 := (b1 ! ?p ! 2)[?r := acceleration d 2]]]"
  have s0: "store (inbuf st) ?p 0 ?r (acceleration d 0) = Inr b0"
    unfolding b0_def by (rule store_ok [OF sh p _ r]) simp
  have sh0: "inbuf_shape ?R b0"
    unfolding b0_def by (rule inbuf_shape_update [OF sh p]) simp
  have s1: "store b0 ?p 1 ?r (acceleration d 1) = Inr b1"
    unfolding b1_def by (rule store_ok [OF sh0 p _ r]) simp
  have sh1: "inbuf_shape ?R b1"
    unfolding b1_def by (rule inbuf_shape_update [OF sh0 p]) simp
  have s2: "store b1 ?p 2 ?r (acceleration d 2) = Inr b2"
    unfolding b2_def by (rule store_ok [OF sh1 p _ r]) simp
  have sh2: "inbuf_shape ?R b2"
    unfolding b2_def by (rule inbuf_shape_update [OF sh1 p]) simp
  have nxt: "PIPELINE_LEN \<le> Suc ?p \<Longrightarrow> Suc ?p mod PIPELINE_LEN = 0"
    "\<not> PIPELINE_LEN \<le> Suc ?p \<Longrightarrow> Suc ?p mod PIPELINE_LEN = Suc ?p"
    using p by (simp_all add: mod_Suc)
  have nl: "(?p + 1) mod PIPELINE_LEN < PIPELINE_LEN" by (simp add: PIPELINE_LEN_def)
  have "ingest_sample st d =
       Inr (if int (rbufi st) + 1 = samplerate st
            then st\<lparr>inbuf := b2, rbufi := 0, unproc := (unproc st)[ibptr st := True],
                   ibptr := (ibptr st + 1) mod PIPELINE_LEN,
                   stdout := (if (unproc st)[ibptr st := True] ! ((ibptr st + 1) mod PIPELINE_LEN)
                              then stdout st @ [''Realtime error!''] else stdout st)\<rparr>
            else st\<lparr>inbuf := b2, rbufi := rbufi st + 1\<rparr>)"
    unfolding ingest_sample_def s0 s1 s2 sum.case Let_def
    using p u nl by (simp add: nxt wr_def rd_def)
  with sh2 show ?thesis by blast
qed

lemma ingest_sample_cursors:
  assumes "producer_ok st"
  shows "\<exists>st'. ingest_sample st d = Inr st' \<and> producer_ok st' \<and>
     samplerate st' = samplerate st \<and>
     rbufi st' = (rbufi st + 1) mod nat (samplerate st) \<and>
     ibptr st' = (ibptr st + (rbufi st + 1) div nat (samplerate st)) mod PIPELINE_LEN \<and>
     aind st' = aind st \<and> ampspec st' = ampspec st \<and> csv st' = csv st \<and>
     ncsv st' = ncsv st \<and> avg_int_in_sec st' = avg_int_in_sec st \<and>
     maxfreq st' = maxfreq st \<and> max_instead_of_avg st' = max_instead_of_avg st"
proof -
  let ?R = "nat (samplerate st)"
  from assms have r: "int (rbufi st) < samplerate st" and p: "ibptr st < PIPELINE_LEN"
    and u: "length (unproc st) = PIPELINE_LEN"
    by (simp_all add: producer_ok_def)
  from r have rR: "rbufi st < ?R" by simp
  from ingest_sample_ok [OF assms, of d] obtain b where
    sh: "inbuf_shape (samplerate st) b" and
    e: "ingest_sample st d =
       Inr (if int (rbufi st) + 1 = samplerate st
            then st\<lparr>inbuf := b, rbufi := 0, unproc := (unproc st)[ibptr st := True],
                   ibptr := (ibptr st + 1) mod PIPELINE_LEN,
                   stdout := (if (unproc st)[ibptr st := True] ! ((ibptr st + 1) mod PIPELINE_LEN)
                              then stdout st @ [''Realtime error!''] else stdout st)\<rparr>
            else st\<lparr>inbuf := b, rbufi := rbufi st + 1\<rparr>)"
    by blast
  have pl: "(ibptr st + 1) mod PIPELINE_LEN < PIPELINE_LEN" by (simp add: PIPELINE_LEN_def)
  show ?thesis
  proof (cases "int (rbufi st) + 1 = samplerate st")
    case True
    then have R: "rbufi st + 1 = ?R" by simp
    then have "(rbufi st + 1) mod ?R = 0" "(rbufi st + 1) div ?R = 1" by simp_all
    with True e sh u pl r show ?thesis by (simp add: producer_ok_def)
  next
    case False
    with rR have lt: "rbufi st + 1 < ?R" by linarith
    then have "(rbufi st + 1) mod ?R = rbufi st + 1" "(rbufi st + 1) div ?R = 0" by simp_all
    with False e sh u p lt show ?thesis by (simp add: producer_ok_def)
  qed
qed

lemma div_mod_shift:
  fixes a m R :: nat
  shows "a div R + (a mod R + m) div R = (a + m) div R"
proof (cases "R = 0")
  case True then show ?thesis by simp
next
  case False
  have g: "(x + q * R) div R = x div R + q" for x q :: nat
    using False by simp
  have "a + m = (a mod R + m) + (a div R) * R" by simp
  then have "(a + m) div R = ((a mod R + m) + (a div R) * R) div R" by (rule arg_cong)
  also have "\<dots> = (a mod R + m) div R + a div R" by (rule g)
  finally show ?thesis by simp
qed

lemma SpatialDataHandler_cursors:
  assumes "producer_ok st"
  shows "\<exists>st'. SpatialDataHandler st ds = Inr st' \<and> producer_ok st' \<and>
     samplerate st' = samplerate st \<and>
     rbufi st' = (rbufi st + length ds) mod nat (samplerate st) \<and>
     ibptr st' = (ibptr st + (rbufi st + length ds) div nat (samplerate st)) mod PIPELINE_LEN \<and>
     aind st' = aind st \<and> ampspec st' = ampspec st \<and> csv st' = csv st \<and>
     ncsv st' = ncsv st \<and> avg_int_in_sec st' = avg_int_in_sec st \<and>
     maxfreq st' = maxfreq st \<and> max_instead_of_avg st' = max_instead_of_avg st"
  using assms
proof (induction ds arbitrary: st)
  case Nil
  then have "rbufi st < nat (samplerate st)" "ibptr st < PIPELINE_LEN"
    by (simp_all add: producer_ok_def zless_nat_eq_int_zless)
  with Nil show ?case by simp
next
  case (Cons d ds)
  let ?R = "nat (samplerate st)"
  from ingest_sample_cursors [OF Cons.prems, of d] obtain s1 where
    e1: "ingest_sample st d = Inr s1" and ok1: "producer_ok s1" and
    R1: "samplerate s1 = samplerate st" and
    r1: "rbufi s1 = (rbufi st + 1) mod ?R" and
    p1: "ibptr s1 = (ibptr st + (rbufi st + 1) div ?R) mod PIPELINE_LEN" and
    f1: "aind s1 = aind st" "ampspec s1 = ampspec st" "csv s1 = csv st"
      "ncsv s1 = ncsv st" "avg_int_in_sec s1 = avg_int_in_sec st"
      "maxfreq s1 = maxfreq st" "max_instead_of_avg s1 = max_instead_of_avg st"
    by blast
  from Cons.IH [OF ok1] obtain s2 where
    e2: "SpatialDataHandler s1 ds = Inr s2" and ok2: "producer_ok s2" and
    R2: "samplerate s2 = samplerate s1" and
    r2: "rbufi s2 = (rbufi s1 + length ds) mod nat (samplerate s1)" and
    p2: "ibptr s2 = (ibptr s1 + (rbufi s1 + length ds) div nat (samplerate s1)) mod PIPELINE_LEN" and
    f2: "aind s2 = aind s1" "ampspec s2 = ampspec s1" "csv s2 = csv s1"
      "ncsv s2 = ncsv s1" "avg_int_in_sec s2 = avg_int_in_sec s1"
      "maxfreq s2 = maxfreq s1" "max_instead_of_avg s2 = max_instead_of_avg s1"
    by blast
  have r: "rbufi s2 = (rbufi st + length (d # ds)) mod ?R"
    using r2 r1 R1 by (simp add: mod_add_left_eq)
  have "ibptr s2 = (ibptr st + ((rbufi st + 1) div ?R + ((rbufi st + 1) mod ?R + length ds) div ?R))
      mod PIPELINE_LEN"
    using p2 p1 r1 R1 by (simp add: mod_add_left_eq add.assoc)
  then have p: "ibptr s2 = (ibptr st + (rbufi st + length (d # ds)) div ?R) mod PIPELINE_LEN"
    by (simp add: div_mod_shift)
  from e1 e2 have "SpatialDataHandler st (d # ds) = Inr s2" by simp
  with ok2 R2 R1 r p f1 f2 show ?case by simp
qed

subsection \<open>The state after start-up; the cursors of the handler\<close>

lemma alloc_spec_buffers_started:
  assumes "0 \<le> samplerate st" and "0 \<le> avg_int_in_sec st" and "grants mem st"
  shows "alloc_spec_buffers mem st = Inr (started st)"
proof -
  have P: "g_new0 mem (int PIPELINE_LEN) ([] :: fftw_real list list)
      = Inr (replicate PIPELINE_LEN [])"
    using assms(3) by (simp add: g_new0_def grants_def PIPELINE_LEN_def)
  have T: "g_new0 mem 3 ([] :: fftw_real list) = Inr (replicate 3 [])"
    using assms(3) by (simp add: g_new0_def grants_def)
  have R: "g_new0 mem (samplerate st) (0 :: fftw_real) = Inr (replicate (nat (samplerate st)) 0)"
    using assms(1,3) by (auto simp: g_new0_def grants_def)
  have W: "g_new0 mem (avg_int_in_sec st) ([] :: fftw_real list)
      = Inr (replicate (nat (avg_int_in_sec st)) [])"
    using assms(2,3) by (auto simp: g_new0_def grants_def)
  show ?thesis
  proof (cases "0 < avg_int_in_sec st")
    case True
    with assms(1,3) have "g_new0 mem (samplerate st div 2 + 1) (0 :: fftw_real)
        = Inr (replicate (nat (samplerate st div 2 + 1)) 0)"
      by (auto simp: g_new0_def grants_def)
    with True show ?thesis
      by (simp add: alloc_spec_buffers_def P T R W started_def map_replicate_const)
  next
    case False
    with assms(2) have "avg_int_in_sec st = 0" by simp
    moreover have "g_new0 mem 0 ([] :: fftw_real list) = Inr []" by (simp add: g_new0_def)
    ultimately show ?thesis
      by (simp add: alloc_spec_buffers_def P T R started_def map_replicate_const)
  qed
qed

lemma alloc_spec_buffers_abort:
  assumes "samplerate st < 0 \<or> avg_int_in_sec st < 0"
  shows "alloc_spec_buffers mem st = Inl AllocAbort"
  using assms by (auto simp add: alloc_spec_buffers_def g_new0_def split: sum.splits)

lemma alloc_spec_buffers_samplerate:
  "alloc_spec_buffers mem st = Inr st' \<Longrightarrow> samplerate st' = samplerate st"
  by (auto simp: alloc_spec_buffers_def split: sum.splits)

lemma inbuf_shape_started:
  "0 \<le> samplerate st \<Longrightarrow> inbuf_shape (samplerate st) (inbuf (started st))"
  by (simp add: inbuf_shape_def started_def)

lemma ampspec_shape_started:
  "0 \<le> samplerate st \<Longrightarrow> 0 \<le> avg_int_in_sec st \<Longrightarrow>
   ampspec_shape (samplerate st) (avg_int_in_sec st) (ampspec (started st))"
  by (simp add: ampspec_shape_def started_def)

lemma started_fields [simp]:
  "samplerate (started st) = samplerate st" "maxfreq (started st) = maxfreq st"
  "avg_int_in_sec (started st) = avg_int_in_sec st"
  "max_instead_of_avg (started st) = max_instead_of_avg st"
  "rbufi (started st) = rbufi st" "unproc (started st) = unproc st"
  "ibptr (started st) = ibptr st" "aind (started st) = aind st"
  "stdout (started st) = stdout st" "csv (started st) = csv st" "ncsv (started st) = ncsv st"
  by (simp_all add: started_def)

lemma init_state_fields [simp]:
  "samplerate init_state = 1000" "maxfreq init_state = 150" "avg_int_in_sec init_state = 10"
  "max_instead_of_avg init_state = False" "rbufi init_state = 0"
  "unproc init_state = replicate PIPELINE_LEN False" "ibptr init_state = 0"
  "aind init_state = 0" "stdout init_state = []" "csv init_state = []" "ncsv init_state = 0"
  by (simp_all add: init_state_def)

lemma empty_pipeline_started:
  assumes "0 < R"
  shows "empty_pipeline (started (init_state\<lparr>samplerate := R\<rparr>))"
  using assms inbuf_shape_started [of "init_state\<lparr>samplerate := R\<rparr>"]
  by (simp add: empty_pipeline_def producer_ok_def PIPELINE_LEN_def)

lemma ingest_sample_wrap:
  assumes "producer_ok st"
  shows "\<exists>s1. ingest_sample st d = Inr s1 \<and>
        rbufi s1 = (if int (rbufi st) + 1 = samplerate st then 0 else rbufi st + 1) \<and>
        ibptr s1 = (if int (rbufi st) + 1 = samplerate st
                    then (if ibptr st + 1 = PIPELINE_LEN then 0 else ibptr st + 1)
                    else ibptr st)"
proof -
  from assms have p: "ibptr st < PIPELINE_LEN" by (simp add: producer_ok_def)
  then have "(ibptr st + 1) mod PIPELINE_LEN = (if ibptr st + 1 = PIPELINE_LEN then 0 else ibptr st + 1)"
    by (simp add: mod_Suc)
  with ingest_sample_ok [OF assms, of d] show ?thesis by auto
qed

text \<open>
  Claim C10. In a state with allocated buffers and both cursors in range, a call of the
  handler with any batch makes no access outside a buffer and leaves the write-slot
  index below \<open>PIPELINE_LEN\<close> and the write offset below the sample rate. One event moves
  the offset to 0 exactly when it completes a second, and then the slot index goes one
  up, or to 0 from \<open>PIPELINE_LEN - 1\<close>.
\<close>

theorem C10_cursors_in_range:
  assumes "producer_ok st"
  shows "(\<exists>st'. SpatialDataHandler st ds = Inr st' \<and> producer_ok st' \<and>
       ibptr st' < PIPELINE_LEN \<and> int (rbufi st') < samplerate st' \<and>
       samplerate st' = samplerate st \<and>
       rbufi st' = (rbufi st + length ds) mod nat (samplerate st) \<and>
       ibptr st' = (ibptr st + (rbufi st + length ds) div nat (samplerate st)) mod PIPELINE_LEN) \<and>
     (\<exists>s1. ingest_sample st d = Inr s1 \<and>
        rbufi s1 = (if int (rbufi st) + 1 = samplerate st then 0 else rbufi st + 1) \<and>
        ibptr s1 = (if int (rbufi st) + 1 = samplerate st
                    then (if ibptr st + 1 = PIPELINE_LEN then 0 else ibptr st + 1)
                    else ibptr st))"
proof -
  from SpatialDataHandler_cursors [OF assms, of ds] obtain st' where
    "SpatialDataHandler st ds = Inr st'" "producer_ok st'" "samplerate st' = samplerate st"
    "rbufi st' = (rbufi st + length ds) mod nat (samplerate st)"
    "ibptr st' = (ibptr st + (rbufi st + length ds) div nat (samplerate st)) mod PIPELINE_LEN"
    by blast
  moreover from \<open>producer_ok st'\<close> have "ibptr st' < PIPELINE_LEN" "int (rbufi st') < samplerate st'"
    by (simp_all add: producer_ok_def)
  ultimately show ?thesis using ingest_sample_wrap [OF assms, of d] by blast
qed

theorem C10_cursors_in_range_witness:
  "producer_ok (started init_state) \<and>
   (\<exists>st'. SpatialDataHandler (started init_state) [(1, 2, 3), (4, 5, 6)] = Inr st' \<and>
      producer_ok st' \<and> ibptr st' = 0 \<and> rbufi st' = 2)"
proof -
  let ?S = "started init_state" and ?ds = "[(1, 2, 3), (4, 5, 6)] :: accel list"
  have ok: "producer_ok ?S"
    using inbuf_shape_started [of init_state]
    by (simp add: producer_ok_def PIPELINE_LEN_def)
  from C10_cursors_in_range [OF ok, of ?ds "(0, 0, 0)"] obtain st' where
    e: "SpatialDataHandler ?S ?ds = Inr st'" and ok': "producer_ok st'" and
    r: "rbufi st' = (rbufi ?S + length ?ds) mod nat (samplerate ?S)" and
    p: "ibptr st' = (ibptr ?S + (rbufi ?S + length ?ds) div nat (samplerate ?S)) mod PIPELINE_LEN"
    by blast
  from r have "rbufi st' = 2" by simp
  moreover from p have "ibptr st' = 0" by simp
  ultimately show ?thesis using ok e ok' by blast
qed

subsection \<open>Whole seconds without draining\<close>

lemma flags_advance:
  "(map (\<lambda>i. i < s) [0..<PIPELINE_LEN])[s mod PIPELINE_LEN := True] =
   map (\<lambda>i. i < Suc s) [0..<PIPELINE_LEN]"
proof (rule nth_equalityI)
  show "length ((map (\<lambda>i. i < s) [0..<PIPELINE_LEN])[s mod PIPELINE_LEN := True]) =
        length (map (\<lambda>i. i < Suc s) [0..<PIPELINE_LEN])" by simp
next
  fix i assume "i < length ((map (\<lambda>i. i < s) [0..<PIPELINE_LEN])[s mod PIPELINE_LEN := True])"
  then have i: "i < PIPELINE_LEN" by simp
  show "(map (\<lambda>i. i < s) [0..<PIPELINE_LEN])[s mod PIPELINE_LEN := True] ! i =
        map (\<lambda>i. i < Suc s) [0..<PIPELINE_LEN] ! i"
  proof (cases "i = s mod PIPELINE_LEN")
    case True
    have "s mod PIPELINE_LEN \<le> s" by simp
    with True i show ?thesis by (simp add: less_Suc_eq_le)
  next
    case False
    then have "i \<noteq> s" using i by auto
    with False i show ?thesis by (auto simp: nth_list_update)
  qed
qed

lemma flag_next:
  "map (\<lambda>i. i < Suc s) [0..<PIPELINE_LEN] ! (Suc s mod PIPELINE_LEN) \<longleftrightarrow> PIPELINE_LEN \<le> Suc s"
proof -
  have P: "0 < PIPELINE_LEN" by (simp add: PIPELINE_LEN_def)
  then have l: "Suc s mod PIPELINE_LEN < PIPELINE_LEN" by simp
  show ?thesis
  proof (cases "PIPELINE_LEN \<le> Suc s")
    case True
    with l have "Suc s mod PIPELINE_LEN < Suc s" by linarith
    with True l show ?thesis by simp
  next
    case False
    then have "Suc s mod PIPELINE_LEN = Suc s" by simp
    with False l show ?thesis by simp
  qed
qed

lemma ingest_sample_after:
  assumes "after_samples t st"
  shows "\<exists>st'. ingest_sample st d = Inr st' \<and> after_samples (Suc t) st' \<and>
     samplerate st' = samplerate st \<and> csv st' = csv st \<and> ncsv st' = ncsv st \<and>
     aind st' = aind st \<and> ampspec st' = ampspec st"
proof -
  let ?R = "nat (samplerate st)" and ?msg = "''Realtime error!''"
  let ?s = "t div ?R"
  from assms have ok: "producer_ok st" and r: "rbufi st = t mod ?R"
    and p: "ibptr st = ?s mod PIPELINE_LEN"
    and u: "unproc st = map (\<lambda>i. i < ?s) [0..<PIPELINE_LEN]"
    and o: "stdout st = replicate (?s + 1 - PIPELINE_LEN) ?msg"
    by (simp_all add: after_samples_def)
  from ok have R: "0 < ?R" by (simp add: producer_ok_def)
  from ingest_sample_ok [OF ok, of d] obtain b where
    sh: "inbuf_shape (samplerate st) b" and
    e: "ingest_sample st d =
       Inr (if int (rbufi st) + 1 = samplerate st
            then st\<lparr>inbuf := b, rbufi := 0, unproc := (unproc st)[ibptr st := True],
                   ibptr := (ibptr st + 1) mod PIPELINE_LEN,
                   stdout := (if (unproc st)[ibptr st := True] ! ((ibptr st + 1) mod PIPELINE_LEN)
                              then stdout st @ [?msg] else stdout st)\<rparr>
            else st\<lparr>inbuf := b, rbufi := rbufi st + 1\<rparr>)"
    by blast
  show ?thesis
  proof (cases "int (rbufi st) + 1 = samplerate st")
    case True
    with r have full: "Suc (t mod ?R) = ?R" by linarith
    then have m: "Suc t mod ?R = 0" and dv: "Suc t div ?R = Suc ?s"
      by (simp_all add: mod_Suc div_Suc)
    have u': "(unproc st)[ibptr st := True] = map (\<lambda>i. i < Suc ?s) [0..<PIPELINE_LEN]"
      unfolding u p by (rule flags_advance)
    have p': "(ibptr st + 1) mod PIPELINE_LEN = Suc ?s mod PIPELINE_LEN"
      unfolding p by (simp add: mod_Suc_eq)
    have f: "(unproc st)[ibptr st := True] ! ((ibptr st + 1) mod PIPELINE_LEN) \<longleftrightarrow> PIPELINE_LEN \<le> Suc ?s"
      unfolding u' p' by (rule flag_next)
    have o': "(if PIPELINE_LEN \<le> Suc ?s then stdout st @ [?msg] else stdout st) =
        replicate (Suc ?s + 1 - PIPELINE_LEN) ?msg"
    proof (cases "PIPELINE_LEN \<le> Suc ?s")
      case True
      then have "Suc ?s + 1 - PIPELINE_LEN = Suc (?s + 1 - PIPELINE_LEN)" by simp
      with True o show ?thesis by (simp add: replicate_append_same)
    next
      case False
      with o show ?thesis by simp
    qed
    define st' where "st' = st\<lparr>inbuf := b, rbufi := 0, unproc := map (\<lambda>i. i < Suc ?s) [0..<PIPELINE_LEN],
                   ibptr := Suc ?s mod PIPELINE_LEN,
                   stdout := replicate (Suc ?s + 1 - PIPELINE_LEN) ?msg\<rparr>"
    from e True have "ingest_sample st d =
       Inr (st\<lparr>inbuf := b, rbufi := 0, unproc := (unproc st)[ibptr st := True],
                   ibptr := (ibptr st + 1) mod PIPELINE_LEN,
                   stdout := (if (unproc st)[ibptr st := True] ! ((ibptr st + 1) mod PIPELINE_LEN)
                              then stdout st @ [?msg] else stdout st)\<rparr>)"
      by simp
    then have e': "ingest_sample st d = Inr st'"
      unfolding st'_def by (simp only: u' p' flag_next o')
    have "after_samples (Suc t) st'"
      using sh R m dv by (simp add: after_samples_def producer_ok_def st'_def PIPELINE_LEN_def)
    with e' show ?thesis by (auto simp: st'_def)
  next
    case False
    from ok have "int (rbufi st) < samplerate st" by (simp add: producer_ok_def)
    with False r have lt: "Suc (t mod ?R) < ?R" by linarith
    then have m: "Suc t mod ?R = Suc (t mod ?R)" and dv: "Suc t div ?R = ?s"
      by (simp_all add: mod_Suc div_Suc)
    define st' where "st' = st\<lparr>inbuf := b, rbufi := rbufi st + 1\<rparr>"
    have e': "ingest_sample st d = Inr st'"
      unfolding e st'_def using False by simp
    have "after_samples (Suc t) st'"
      using sh lt m dv r p u o ok
      by (simp add: after_samples_def producer_ok_def st'_def)
    with e' show ?thesis by (auto simp: st'_def)
  qed
qed


lemma SpatialDataHandler_after:
  assumes "after_samples t st"
  shows "\<exists>st'. SpatialDataHandler st ds = Inr st' \<and> after_samples (t + length ds) st' \<and>
     samplerate st' = samplerate st \<and> csv st' = csv st \<and> ncsv st' = ncsv st \<and>
     aind st' = aind st \<and> ampspec st' = ampspec st"
  using assms
proof (induction ds arbitrary: t st)
  case Nil
  then show ?case by simp
next
  case (Cons d ds)
  from ingest_sample_after [OF Cons.prems, of d] obtain s1 where
    e1: "ingest_sample st d = Inr s1" and a1: "after_samples (Suc t) s1" and
    f1: "samplerate s1 = samplerate st" "csv s1 = csv st" "ncsv s1 = ncsv st"
      "aind s1 = aind st" "ampspec s1 = ampspec st"
    by blast
  from Cons.IH [OF a1] obtain s2 where
    e2: "SpatialDataHandler s1 ds = Inr s2" and a2: "after_samples (Suc t + length ds) s2" and
    f2: "samplerate s2 = samplerate s1" "csv s2 = csv s1" "ncsv s2 = ncsv s1"
      "aind s2 = aind s1" "ampspec s2 = ampspec s1"
    by blast
  from e1 e2 have "SpatialDataHandler st (d # ds) = Inr s2" by simp
  with a2 f1 f2 show ?case by simp
qed

lemma feed_after:
  assumes "after_samples t st"
  shows "\<exists>st'. feed st bs = Inr st' \<and> after_samples (t + length (concat bs)) st' \<and>
     samplerate st' = samplerate st \<and> csv st' = csv st \<and> ncsv st' = ncsv st"
  using assms
proof (induction bs arbitrary: t st)
  case Nil
  then show ?case by simp
next
  case (Cons b bs)
  from SpatialDataHandler_after [OF Cons.prems, of b] obtain s1 where
    e1: "SpatialDataHandler st b = Inr s1" and a1: "after_samples (t + length b) s1" and
    f1: "samplerate s1 = samplerate st" "csv s1 = csv st" "ncsv s1 = ncsv st"
    by blast
  from Cons.IH [OF a1] obtain s2 where
    e2: "feed s1 bs = Inr s2" and
    a2: "after_samples (t + length b + length (concat bs)) s2" and
    f2: "samplerate s2 = samplerate s1" "csv s2 = csv s1" "ncsv s2 = ncsv s1"
    by blast
  from e1 e2 have "feed st (b # bs) = Inr s2" by simp
  with a2 f1 f2 show ?case by (simp add: add.assoc)
qed

lemma empty_pipeline_after: "empty_pipeline st \<Longrightarrow> after_samples 0 st"
  by (simp add: empty_pipeline_def after_samples_def map_replicate_const PIPELINE_LEN_def)

lemma count_below: "length (filter (\<lambda>b. b) (map (\<lambda>i. i < s) [0..<n])) = min s n"
  by (induction n) (auto simp: min_def)

lemma ready_count_after:
  "after_samples t st \<Longrightarrow> ready_count st = min (t div nat (samplerate st)) PIPELINE_LEN"
  unfolding after_samples_def ready_count_def by (elim conjE) (simp only: count_below)

lemma overruns_after:
  "after_samples t st \<Longrightarrow> overruns st = t div nat (samplerate st) + 1 - PIPELINE_LEN"
  by (simp add: after_samples_def overruns_def)

lemma feed_seconds:
  assumes "empty_pipeline st" and "length (concat bs) = nat (samplerate st) * n"
  shows "\<exists>st'. feed st bs = Inr st' \<and> ready_count st' = min n PIPELINE_LEN \<and>
     overruns st' = n + 1 - PIPELINE_LEN \<and> after_samples (nat (samplerate st) * n) st'"
proof -
  from assms(1) have "0 < nat (samplerate st)"
    by (simp add: empty_pipeline_def producer_ok_def)
  then have d: "(nat (samplerate st) * n) div nat (samplerate st) = n" by simp
  from feed_after [OF empty_pipeline_after [OF assms(1)], of bs] assms(2) obtain st' where
    e: "feed st bs = Inr st'" and a: "after_samples (nat (samplerate st) * n) st'" and
    R: "samplerate st' = samplerate st"
    by auto
  from ready_count_after [OF a] overruns_after [OF a] d R e a show ?thesis by simp
qed

text \<open>
  Claim C2, as amended. From the empty pipeline, with no call of \<^verbatim>\<open>process\<close>: after the
  events of \<open>n\<close> whole seconds, delivered in any batches, \<open>n\<close> slots are ready when
  \<open>n \<le> PIPELINE_LEN\<close> and \<open>PIPELINE_LEN\<close> slots otherwise; no overrun has been reported
  when \<open>n < PIPELINE_LEN\<close>, and \<open>n - PIPELINE_LEN + 1\<close> overruns otherwise: one at the end
  of each second from second \<open>PIPELINE_LEN\<close> on.
\<close>

theorem C2_ready_slots_and_overruns:
  assumes "empty_pipeline st" and "length (concat bs) = nat (samplerate st) * n"
  shows "\<exists>st'. feed st bs = Inr st' \<and>
     ready_count st' = (if n \<le> PIPELINE_LEN then n else PIPELINE_LEN) \<and>
     overruns st' = (if n < PIPELINE_LEN then 0 else n - PIPELINE_LEN + 1)"
proof -
  from feed_seconds [OF assms] obtain st' where
    "feed st bs = Inr st'" "ready_count st' = min n PIPELINE_LEN"
    "overruns st' = n + 1 - PIPELINE_LEN"
    by blast
  then show ?thesis by (auto simp: min_def)
qed

theorem C2_ready_slots_and_overruns_witness:
  "empty_pipeline (started init_state) \<and>
   length (concat [replicate 600 (0, 0, 1), replicate 1400 (0, 0, 1)])
     = nat (samplerate (started init_state)) * 2 \<and>
   (\<exists>st'. feed (started init_state) [replicate 600 (0, 0, 1), replicate 1400 (0, 0, 1)] = Inr st' \<and>
      ready_count st' = 2 \<and> overruns st' = 0)"
proof -
  have h: "empty_pipeline (started init_state)"
    using empty_pipeline_started [of 1000] by (simp add: init_state_def)
  have l: "length (concat [replicate 600 (0, 0, 1 :: real), replicate 1400 (0 :: real, 0 :: real, 1)])
     = nat (samplerate (started init_state)) * 2" by simp
  from C2_ready_slots_and_overruns [OF h l] h l show ?thesis
    by (simp add: PIPELINE_LEN_def)
qed

text \<open>
  With the sample rate 1000 of the program, the events of 101 seconds give two reports,
  not one.
\<close>

theorem C2_overruns_counterexample:
  "map_sum id overruns (feed (started init_state) [replicate (1000 * 101) (0, 0, 1)]) = Inr 2"
proof -
  have h: "empty_pipeline (started init_state)"
    using empty_pipeline_started [of 1000] by (simp add: init_state_def)
  have l: "length (concat [replicate (1000 * 101) (0 :: real, 0 :: real, 1 :: real)])
     = nat (samplerate (started init_state)) * 101" by simp
  from feed_seconds [OF h l] obtain st' where
    "feed (started init_state) [replicate (1000 * 101) (0, 0, 1)] = Inr st'"
    "overruns st' = 101 + 1 - PIPELINE_LEN"
    by blast
  then show ?thesis by (simp add: PIPELINE_LEN_def)
qed

subsection \<open>Start-up\<close>

text \<open>
  Claim C6, as amended. Start-up checks none of \<^verbatim>\<open>maxfreq\<close>, \<^verbatim>\<open>avg_int_in_sec\<close> and
  \<^verbatim>\<open>samplerate\<close>: a command line that does not parse is the only rejection. With a sample
  rate that is not positive or a negative window length no processing begins (the
  allocator aborts on the negative count, the division by the sample rate 0 is
  undefined). A \<^verbatim>\<open>maxfreq\<close> above half the sample rate and the window length 0 are not
  rejected: with a positive sample rate, a window length that is not negative and an
  allocator that meets the requests, the buffers are allocated with these values and the
  processing loop is entered.
\<close>

theorem C6_no_validation:
  "(main_startup mem parsed info_only st = InvalidOptions \<longleftrightarrow> \<not> parsed) \<and>
   (samplerate st \<le> 0 \<or> avg_int_in_sec st < 0 \<longrightarrow>
      (\<forall>s. main_startup mem parsed info_only st \<noteq> Processing s)) \<and>
   (0 < samplerate st \<and> 0 \<le> avg_int_in_sec st \<and> grants mem st \<and>
    (samplerate st div 2 < maxfreq st \<or> avg_int_in_sec st = 0) \<longrightarrow>
      main_startup mem True False st = Processing (started st))"
proof (intro conjI impI allI)
  show "main_startup mem parsed info_only st = InvalidOptions \<longleftrightarrow> \<not> parsed"
    by (auto simp: main_startup_def split: sum.splits)
next
  fix s assume a: "samplerate st \<le> 0 \<or> avg_int_in_sec st < 0"
  show "main_startup mem parsed info_only st \<noteq> Processing s"
  proof (cases "samplerate st < 0 \<or> avg_int_in_sec st < 0")
    case True
    from alloc_spec_buffers_abort [OF this, of mem] show ?thesis
      by (simp add: main_startup_def open_output_def)
  next
    case False
    with a have "samplerate st = 0" by linarith
    then show ?thesis
      by (auto simp: main_startup_def open_output_def
          dest: alloc_spec_buffers_samplerate split: sum.splits)
  qed
next
  assume "0 < samplerate st \<and> 0 \<le> avg_int_in_sec st \<and> grants mem st \<and>
    (samplerate st div 2 < maxfreq st \<or> avg_int_in_sec st = 0)"
  then show "main_startup mem True False st = Processing (started st)"
    by (simp add: main_startup_def open_output_def alloc_spec_buffers_started)
qed

theorem C6_no_validation_witness:
  "0 < samplerate (init_state\<lparr>maxfreq := 1000000\<rparr>) \<and>
   0 \<le> avg_int_in_sec (init_state\<lparr>maxfreq := 1000000\<rparr>) \<and>
   grants (\<lambda>n. True) (init_state\<lparr>maxfreq := 1000000\<rparr>) \<and>
   samplerate (init_state\<lparr>maxfreq := 1000000\<rparr>) div 2 < maxfreq (init_state\<lparr>maxfreq := 1000000\<rparr>) \<and>
   main_startup (\<lambda>n. True) True False (init_state\<lparr>maxfreq := 1000000\<rparr>)
     = Processing (started (init_state\<lparr>maxfreq := 1000000\<rparr>)) \<and>
   avg_int_in_sec (init_state\<lparr>avg_int_in_sec := - 1\<rparr>) < 0 \<and>
   main_startup (\<lambda>n. True) True False (init_state\<lparr>avg_int_in_sec := - 1\<rparr>)
     \<noteq> Processing (started (init_state\<lparr>avg_int_in_sec := - 1\<rparr>))"
proof -
  have g: "grants (\<lambda>n. True) (init_state\<lparr>maxfreq := 1000000\<rparr>)" by (simp add: grants_def)
  from C6_no_validation [of "\<lambda>n. True" True False "init_state\<lparr>maxfreq := 1000000\<rparr>"] g
  have "main_startup (\<lambda>n. True) True False (init_state\<lparr>maxfreq := 1000000\<rparr>)
     = Processing (started (init_state\<lparr>maxfreq := 1000000\<rparr>))" by simp
  moreover
  from C6_no_validation [of "\<lambda>n. True" True False "init_state\<lparr>avg_int_in_sec := - 1\<rparr>"]
  have "main_startup (\<lambda>n. True) True False (init_state\<lparr>avg_int_in_sec := - 1\<rparr>)
     \<noteq> Processing (started (init_state\<lparr>avg_int_in_sec := - 1\<rparr>))" by simp
  ultimately show ?thesis using g by simp
qed

text \<open>
  \<^verbatim>\<open>maxfreq = 501\<close> is above half the sample rate 1000, and the window length 0 is not
  positive: with an allocator that meets the requests, both configurations reach the
  processing loop with buffers allocated.
\<close>

theorem C6_accepts_invalid_counterexample:
  "main_startup (\<lambda>n. True) True False (init_state\<lparr>maxfreq := 501\<rparr>)
     = Processing (started (init_state\<lparr>maxfreq := 501\<rparr>)) \<and>
   main_startup (\<lambda>n. True) True False (init_state\<lparr>avg_int_in_sec := 0\<rparr>)
     = Processing (started (init_state\<lparr>avg_int_in_sec := 0\<rparr>))"
  by (simp add: main_startup_def open_output_def alloc_spec_buffers_started grants_def)

subsection \<open>The loops of output\_csv\<close>

lemma wrap_ptr_mod: "wrap_ptr ptr = ptr mod PIPELINE_LEN"
proof (induction ptr rule: wrap_ptr.induct)
  case (1 ptr)
  show ?case
  proof (cases "PIPELINE_LEN \<le> ptr")
    case True
    with 1 have "wrap_ptr (ptr - PIPELINE_LEN) = (ptr - PIPELINE_LEN) mod PIPELINE_LEN" by simp
    with True show ?thesis by (subst wrap_ptr.simps) (simp add: le_mod_geq)
  next
    case False
    then show ?thesis by (subst wrap_ptr.simps) simp
  qed
qed

lemma amp_at_ok:
  assumes "ampspec_shape R W (ampspec st)" and "dm < 3" and "int j < W" and "int k < R div 2 + 1"
  shows "amp_at st dm j k = Inr (ampspec st ! dm ! j ! k)"
proof -
  from assms have l: "dm < length (ampspec st)" by (simp add: ampspec_shape_def)
  then have "ampspec st ! dm \<in> set (ampspec st)" by simp
  with assms have w: "int (length (ampspec st ! dm)) = W"
    and sp: "\<forall>sp \<in> set (ampspec st ! dm). int (length sp) = R div 2 + 1"
    by (auto simp: ampspec_shape_def)
  from w assms have j: "j < length (ampspec st ! dm)" by simp
  then have "ampspec st ! dm ! j \<in> set (ampspec st ! dm)" by simp
  with sp have "int (length (ampspec st ! dm ! j)) = R div 2 + 1" by blast
  with assms have "k < length (ampspec st ! dm ! j)" by simp
  with l j show ?thesis by (simp add: amp_at_def rd_def)
qed

lemma max_loop_reference:
  assumes sh: "ampspec_shape (samplerate st) (avg_int_in_sec st) (ampspec st)"
    and dm: "dm < 3" and k: "int k < samplerate st div 2 + 1" and R: "samplerate st \<noteq> 0"
  shows "max_loop st dm k j v =
     Inr (reference_max (of_int (samplerate st) / 1000) j v
            (map (\<lambda>j'. ampspec st ! dm ! j' ! k) [j..<nat (avg_int_in_sec st)]))"
proof (induction "nat (avg_int_in_sec st) - j" arbitrary: j v)
  case 0
  then have "\<not> int j < avg_int_in_sec st" by linarith
  moreover from 0 have "[j..<nat (avg_int_in_sec st)] = []" by simp
  ultimately show ?case by (subst max_loop.simps) simp
next
  case (Suc n)
  then have lt: "int j < avg_int_in_sec st" and jn: "j < nat (avg_int_in_sec st)" by linarith+
  let ?a = "ampspec st ! dm ! j ! k" and ?d = "real_of_int (samplerate st) / 1000"
  let ?v = "(if ?a > v \<or> j = 0 then ?a else v) / ?d"
  have a: "amp_at st dm j k = Inr ?a" by (rule amp_at_ok [OF sh dm lt k])
  have d: "?d \<noteq> 0" using R by simp
  from Suc have "n = nat (avg_int_in_sec st) - Suc j" by simp
  from Suc.hyps(1) [OF this, of ?v]
  have "max_loop st dm k (j + 1) ?v =
     Inr (reference_max ?d (Suc j) ?v
            (map (\<lambda>j'. ampspec st ! dm ! j' ! k) [Suc j..<nat (avg_int_in_sec st)]))"
    by simp
  moreover have "max_loop st dm k j v = max_loop st dm k (j + 1) ?v"
    using lt d by (subst max_loop.simps) (simp add: a fdiv_def)
  ultimately show ?case using jn by (simp add: upt_conv_Cons)
qed

lemma sum_loop_sum:
  assumes sh: "ampspec_shape (samplerate st) (avg_int_in_sec st) (ampspec st)"
    and dm: "dm < 3" and k: "int k < samplerate st div 2 + 1"
  shows "sum_loop st dm k j v =
     Inr (v + sum_list (map (\<lambda>j'. ampspec st ! dm ! j' ! k) [j..<nat (avg_int_in_sec st)]))"
proof (induction "nat (avg_int_in_sec st) - j" arbitrary: j v)
  case 0
  then have "\<not> int j < avg_int_in_sec st" by linarith
  moreover from 0 have "[j..<nat (avg_int_in_sec st)] = []" by simp
  ultimately show ?case by (subst sum_loop.simps) simp
next
  case (Suc n)
  then have lt: "int j < avg_int_in_sec st" and jn: "j < nat (avg_int_in_sec st)" by linarith+
  let ?a = "ampspec st ! dm ! j ! k"
  have a: "amp_at st dm j k = Inr ?a" by (rule amp_at_ok [OF sh dm lt k])
  from Suc have "n = nat (avg_int_in_sec st) - Suc j" by simp
  from Suc.hyps(1) [OF this, of "v + ?a"]
  have "sum_loop st dm k (j + 1) (v + ?a) =
     Inr (v + ?a + sum_list (map (\<lambda>j'. ampspec st ! dm ! j' ! k) [Suc j..<nat (avg_int_in_sec st)]))"
    by simp
  moreover have "sum_loop st dm k j v = sum_loop st dm k (j + 1) (v + ?a)"
    using lt by (subst sum_loop.simps) (simp add: a)
  ultimately show ?case using jn by (simp add: upt_conv_Cons)
qed

lemma bin_value_emitted:
  assumes c: "config_ok st"
    and sh: "ampspec_shape (samplerate st) (avg_int_in_sec st) (ampspec st)"
    and dm: "dm < 3" and k: "int k < maxfreq st + 1"
  shows "bin_value st dm k = Inr (emitted_value st dm k)"
proof -
  from c k have k': "int k < samplerate st div 2 + 1" and R: "samplerate st \<noteq> 0"
    and W: "0 < avg_int_in_sec st" and o: "avg_int_in_sec st * samplerate st \<le> INT_MAX"
    and R0: "0 < samplerate st"
    by (simp_all add: config_ok_def)
  from W R0 have p: "0 < avg_int_in_sec st * samplerate st" by simp
  then have lo: "\<not> avg_int_in_sec st * samplerate st < - INT_MAX - 1"
    by (simp add: INT_MAX_def)
  have nz: "real_of_int (avg_int_in_sec st * samplerate st) / 1000 \<noteq> 0"
    using W R0 by simp
  show ?thesis
  proof (cases "max_instead_of_avg st")
    case True
    then show ?thesis
      by (simp add: bin_value_def emitted_value_def window_bins_def
          max_loop_reference [OF sh dm k' R])
  next
    case False
    then show ?thesis
      using o lo nz
      by (simp add: bin_value_def emitted_value_def window_bins_def reference_mean_def
          sum_loop_sum [OF sh dm k'] fdiv_def)
  qed
qed

lemma row_loop_map:
  assumes "\<And>k. int k < maxfreq st + 1 \<Longrightarrow> bin_value st dm k = Inr (f k)"
  shows "row_loop st dm k0 row = Inr (row @ map f [k0..<nat (maxfreq st + 1)])"
proof (induction "nat (maxfreq st + 1) - k0" arbitrary: k0 row)
  case 0
  then have "\<not> int k0 < maxfreq st + 1" by linarith
  moreover from 0 have "[k0..<nat (maxfreq st + 1)] = []" by simp
  ultimately show ?case by (subst row_loop.simps) simp
next
  case (Suc n)
  then have lt: "int k0 < maxfreq st + 1" and kn: "k0 < nat (maxfreq st + 1)" by linarith+
  from Suc have "n = nat (maxfreq st + 1) - Suc k0" by simp
  from Suc.hyps(1) [OF this, of "row @ [f k0]"]
  have "row_loop st dm (k0 + 1) (row @ [f k0]) =
      Inr (row @ [f k0] @ map f [Suc k0..<nat (maxfreq st + 1)])"
    by simp
  moreover have "row_loop st dm k0 row = row_loop st dm (k0 + 1) (row @ [f k0])"
    using lt by (subst row_loop.simps) (simp add: assms)
  ultimately show ?case using kn by (simp add: upt_conv_Cons)
qed

lemma row_loop_emitted:
  assumes c: "config_ok st"
    and sh: "ampspec_shape (samplerate st) (avg_int_in_sec st) (ampspec st)"
    and dm: "dm < 3"
  shows "row_loop st dm 0 [] = Inr (emitted_row st dm)"
  using row_loop_map [of st dm "emitted_value st dm" 0 "[]", OF bin_value_emitted [OF c sh dm]]
  by (simp add: emitted_row_def)

subsection \<open>output\_csv\<close>

lemma emitted_row_frame [simp]:
  "emitted_row (st\<lparr>ncsv := n\<rparr>) dm = emitted_row st dm"
  "emitted_row (st\<lparr>stdout := l\<rparr>) dm = emitted_row st dm"
  "emitted_row (st\<lparr>csv := c\<rparr>) dm = emitted_row st dm"
  by (simp_all add: emitted_row_def emitted_value_def window_bins_def)

lemma output_csv_result:
  assumes c: "config_ok st"
    and sh: "ampspec_shape (samplerate st) (avg_int_in_sec st) (ampspec st)"
    and dm: "dm < 3"
  shows "output_csv env st dm =
     Inr (if env (ncsv st) = PrepareFails then
            (False, st\<lparr>ncsv := ncsv st + 1,
                        stdout := stdout st @ [''ERROR: could not open/create output file'']\<rparr>)
          else if env (ncsv st) = ReopenFails then
            (False, st\<lparr>ncsv := ncsv st + 1,
                        stdout := stdout st @ [''ERROR: could not reopen output file'']\<rparr>)
          else if env (ncsv st) = SinkOK then
            (True, st\<lparr>ncsv := ncsv st + 1, csv := csv st @ [(dm, emitted_row st dm)]\<rparr>)
          else (True, st\<lparr>ncsv := ncsv st + 1\<rparr>))"
proof -
  let ?st1 = "st\<lparr>ncsv := ncsv st + 1\<rparr>"
  have c1: "config_ok ?st1" using c by (simp add: config_ok_def)
  have sh1: "ampspec_shape (samplerate ?st1) (avg_int_in_sec ?st1) (ampspec ?st1)"
    using sh by simp
  have m: "\<not> INT_MAX \<le> maxfreq st"
  proof -
    from c have "maxfreq st \<le> samplerate st div 2" "0 < samplerate st" "samplerate st < INT_MAX"
      by (simp_all add: config_ok_def)
    then show ?thesis by linarith
  qed
  have "row_loop ?st1 dm 0 [] = Inr (emitted_row st dm)"
    using row_loop_emitted [OF c1 sh1 dm] by simp
  then show ?thesis using m by (simp add: output_csv_def Let_def)
qed

lemma output_csv_frame:
  assumes "output_csv env st dm = Inr (r, st')"
  shows "st' = st\<lparr>stdout := stdout st', csv := csv st', ncsv := ncsv st'\<rparr>"
  using assms by (auto simp: output_csv_def Let_def split: if_splits sum.splits)

text \<open>
  Claim C9, as amended. When the sink cannot be opened (in \<^verbatim>\<open>csv_prepare\<close> or at the
  second \<^verbatim>\<open>fopen\<close>), \<^verbatim>\<open>output_csv\<close> returns \<^verbatim>\<open>FALSE\<close> and does not fail otherwise. In a
  well-formed state it returns for every state of the sink, and its result is \<^verbatim>\<open>FALSE\<close>
  exactly when the sink could not be opened, so a write that fails is not reported.
  Whenever \<^verbatim>\<open>output_csv\<close> returns, with either result, the window spectra and the fill
  index are what they were.
\<close>

theorem C9_emit_failure_and_frame:
  "(env (ncsv st) = PrepareFails \<or> env (ncsv st) = ReopenFails \<longrightarrow>
      (\<exists>st'. output_csv env st dm = Inr (False, st') \<and>
         ampspec st' = ampspec st \<and> aind st' = aind st)) \<and>
   (consumer_ok st \<and> dm < 3 \<longrightarrow>
      (\<exists>r st'. output_csv env st dm = Inr (r, st') \<and>
         (r \<longleftrightarrow> env (ncsv st) \<noteq> PrepareFails \<and> env (ncsv st) \<noteq> ReopenFails))) \<and>
   (\<forall>r st'. output_csv env st dm = Inr (r, st') \<longrightarrow>
      ampspec st' = ampspec st \<and> aind st' = aind st)"
proof (intro conjI impI allI)
  assume "env (ncsv st) = PrepareFails \<or> env (ncsv st) = ReopenFails"
  then show "\<exists>st'. output_csv env st dm = Inr (False, st') \<and>
         ampspec st' = ampspec st \<and> aind st' = aind st"
    by (auto simp: output_csv_def Let_def)
next
  assume a: "consumer_ok st \<and> dm < 3"
  then have c: "config_ok st"
    and sh: "ampspec_shape (samplerate st) (avg_int_in_sec st) (ampspec st)" and dm: "dm < 3"
    by (simp_all add: consumer_ok_def)
  show "\<exists>r st'. output_csv env st dm = Inr (r, st') \<and>
         (r \<longleftrightarrow> env (ncsv st) \<noteq> PrepareFails \<and> env (ncsv st) \<noteq> ReopenFails)"
    unfolding output_csv_result [OF c sh dm] by simp
next
  fix r st' assume "output_csv env st dm = Inr (r, st')"
  from output_csv_frame [OF this]
  have "ampspec st' = ampspec (st\<lparr>stdout := stdout st', csv := csv st', ncsv := ncsv st'\<rparr>)"
    "aind st' = aind (st\<lparr>stdout := stdout st', csv := csv st', ncsv := ncsv st'\<rparr>)"
    by simp_all
  then show "ampspec st' = ampspec st" "aind st' = aind st" by simp_all
qed

lemma consumer_ok_started_init: "consumer_ok (started init_state)"
  using inbuf_shape_started [of init_state] ampspec_shape_started [of init_state]
  by (simp add: consumer_ok_def config_ok_def INT_MAX_def PIPELINE_LEN_def)

theorem C9_emit_failure_and_frame_witness:
  "consumer_ok (started init_state) \<and> (0 :: nat) < 3 \<and>
   (\<lambda>n :: nat. PrepareFails) (ncsv (started init_state)) = PrepareFails \<and>
   (\<exists>st'. output_csv (\<lambda>n. PrepareFails) (started init_state) 0 = Inr (False, st') \<and>
      ampspec st' = ampspec (started init_state) \<and> aind st' = aind (started init_state))"
  using C9_emit_failure_and_frame [of "\<lambda>n. PrepareFails" "started init_state" 0]
    consumer_ok_started_init
  by simp

text \<open>
  The file opens and every \<^verbatim>\<open>fprintf\<close> fails: \<^verbatim>\<open>output_csv\<close> returns \<^verbatim>\<open>TRUE\<close>.
\<close>

theorem C9_write_failure_counterexample:
  "map_sum id fst (output_csv (\<lambda>n. WriteFails) (started init_state) 0) = Inr True"
proof -
  have c: "config_ok (started init_state)"
    and sh: "ampspec_shape (samplerate (started init_state)) (avg_int_in_sec (started init_state))
      (ampspec (started init_state))"
    using consumer_ok_started_init by (simp_all add: consumer_ok_def)
  have "output_csv (\<lambda>n. WriteFails) (started init_state) 0 =
      Inr (True, started init_state\<lparr>ncsv := ncsv (started init_state) + 1\<rparr>)"
    using output_csv_result [OF c sh, of 0 "\<lambda>n. WriteFails"] by simp
  then show ?thesis by simp
qed

subsection \<open>The reference running maximum\<close>

lemma reference_max_snoc:
  "reference_max d j v (xs @ [a]) =
     (if reference_max d j v xs < a \<or> (j = 0 \<and> xs = []) then a else reference_max d j v xs) / d"
  by (induction xs arbitrary: j v) auto

lemma Max_snoc: "xs \<noteq> [] \<Longrightarrow> Max (set (xs @ [a])) = max a (Max (set xs))"
  by simp

lemma reference_max_unit:
  "xs \<noteq> [] \<Longrightarrow> reference_max 1 0 0 xs = Max (set xs)"
proof (induction xs rule: rev_induct)
  case Nil
  then show ?case by simp
next
  case (snoc a xs)
  show ?case
  proof (cases "xs = []")
    case True
    then show ?thesis by simp
  next
    case False
    define M where "M = Max (set xs)"
    from False snoc have v: "reference_max 1 0 0 xs = M" by (simp add: M_def)
    have "reference_max 1 0 0 (xs @ [a]) = (if M < a then a else M)"
      using False by (simp add: reference_max_snoc v)
    moreover have "Max (set (xs @ [a])) = max a M"
      unfolding M_def using False by (rule Max_snoc)
    ultimately show ?thesis by (simp add: max_def)
  qed
qed

lemma reference_max_upper:
  assumes d: "1 < d" and nn: "\<forall>x \<in> set xs. 0 \<le> x" and ne: "xs \<noteq> []"
  shows "0 \<le> reference_max d 0 0 xs \<and> reference_max d 0 0 xs \<le> Max (set xs) / d"
  using nn ne
proof (induction xs rule: rev_induct)
  case Nil
  then show ?case by simp
next
  case (snoc a xs)
  from snoc.prems have a: "0 \<le> a" and nn': "\<forall>x \<in> set xs. 0 \<le> x" by simp_all
  show ?case
  proof (cases "xs = []")
    case True
    with a d show ?thesis by simp
  next
    case False
    let ?v = "reference_max d 0 0 xs" and ?M = "Max (set xs)"
    from snoc.IH [OF nn' False] have v0: "0 \<le> ?v" and vM: "?v \<le> ?M / d" by simp_all
    from v0 vM d have M0: "0 \<le> ?M"
      by (metis divide_le_0_iff dual_order.trans linorder_not_le not_one_le_zero order_less_imp_le zero_le_divide_iff)
    have Md: "?M / d \<le> ?M" using M0 d by (simp add: divide_le_eq mult_le_cancel_left1)
    have r: "reference_max d 0 0 (xs @ [a]) = (if ?v < a then a else ?v) / d"
      using False by (simp add: reference_max_snoc)
    have m: "Max (set (xs @ [a])) = max a ?M" using False by (rule Max_snoc)
    have "0 \<le> (if ?v < a then a else ?v) / d" using a v0 d by simp
    moreover have "(if ?v < a then a else ?v) \<le> max a ?M" using vM Md by (auto simp: max_def)
    then have "(if ?v < a then a else ?v) / d \<le> max a ?M / d"
      using d by (simp add: divide_right_mono)
    ultimately show ?thesis unfolding r m by blast
  qed
qed

lemma reference_max_lower:
  assumes d: "0 < d" "d < 1" and nn: "\<forall>x \<in> set xs. 0 \<le> x" and ne: "xs \<noteq> []"
  shows "Max (set xs) / d \<le> reference_max d 0 0 xs"
  using nn ne
proof (induction xs rule: rev_induct)
  case Nil
  then show ?case by simp
next
  case (snoc a xs)
  from snoc.prems have a: "0 \<le> a" and nn': "\<forall>x \<in> set xs. 0 \<le> x" by simp_all
  show ?case
  proof (cases "xs = []")
    case True
    then show ?thesis by simp
  next
    case False
    let ?v = "reference_max d 0 0 xs" and ?M = "Max (set xs)"
    from snoc.IH [OF nn' False] have vM: "?M / d \<le> ?v" by simp
    from False nn' have M0: "0 \<le> ?M" by (metis Max_in List.finite_set set_empty)
    have Md: "?M \<le> ?M / d" using M0 d by (simp add: le_divide_eq mult_le_cancel_left2)
    have r: "reference_max d 0 0 (xs @ [a]) = (if ?v < a then a else ?v) / d"
      using False by (simp add: reference_max_snoc)
    have m: "Max (set (xs @ [a])) = max a ?M" using False by (rule Max_snoc)
    have "max a ?M \<le> (if ?v < a then a else ?v)" using vM Md by (auto simp: max_def)
    then have "max a ?M / d \<le> (if ?v < a then a else ?v) / d"
      using d by (simp add: divide_right_mono)
    then show ?thesis unfolding r m .
  qed
qed


lemma shrink_fixed:
  fixes M d :: real
  assumes "1 < d" and "0 \<le> M" and "M \<le> M / d"
  shows "M = 0"
proof -
  from assms have "M * d \<le> M" by (simp add: le_divide_eq)
  then have "M * (d - 1) \<le> 0" by (simp add: algebra_simps)
  moreover from assms have "0 \<le> M * (d - 1)" by simp
  ultimately have "M * (d - 1) = 0" by simp
  with assms show ?thesis by simp
qed

lemma grow_fixed:
  fixes M d :: real
  assumes "0 < d" and "d < 1" and "0 \<le> M" and "M / d \<le> M"
  shows "M = 0"
proof -
  from assms have "M \<le> M * d" by (simp add: divide_le_eq)
  then have "M * (1 - d) \<le> 0" by (simp add: algebra_simps)
  moreover from assms have "0 \<le> M * (1 - d)" by simp
  ultimately have "M * (1 - d) = 0" by simp
  with assms show ?thesis by simp
qed

lemma reference_max_ideal_last:
  assumes d: "0 < d" "d \<noteq> 1" and nn: "\<forall>x \<in> set xs. 0 \<le> x" and ne: "xs \<noteq> []"
    and eq: "reference_max d 0 0 xs = Max (set xs) / d"
  shows "last xs = Max (set xs)"
proof -
  from ne obtain ys a where xs: "xs = ys @ [a]" by (cases xs rule: rev_cases) auto
  show ?thesis
  proof (cases "ys = []")
    case True
    with xs show ?thesis by simp
  next
    case False
    define v where "v = reference_max d 0 0 ys"
    define M where "M = Max (set ys)"
    from nn xs have a: "0 \<le> a" and nn': "\<forall>x \<in> set ys. 0 \<le> x" by simp_all
    from False nn' have M0: "0 \<le> M" unfolding M_def by (metis Max_in List.finite_set set_empty)
    have r: "reference_max d 0 0 xs = (if v < a then a else v) / d"
      using False by (simp add: xs reference_max_snoc v_def)
    have m: "Max (set xs) = max a M" unfolding xs M_def using False by (rule Max_snoc)
    from eq r m d have e: "(if v < a then a else v) = max a M" by simp
    have "a = max a M"
    proof (cases "v < a")
      case True
      with e show ?thesis by simp
    next
      case nr: False
      with e have vM: "v = max a M" by simp
      show ?thesis
      proof (cases "1 < d")
        case True
        from reference_max_upper [OF True nn' False] have "v \<le> M / d"
          by (simp add: v_def M_def)
        with vM have "M \<le> M / d" by (simp add: max_def split: if_splits)
        from shrink_fixed [OF True M0 this] have "M = 0" .
        with \<open>v \<le> M / d\<close> vM a show ?thesis by (simp add: max_def split: if_splits)
      next
        case False
        with d have d1: "d < 1" by simp
        from reference_max_lower [OF d(1) d1 nn' \<open>ys \<noteq> []\<close>] have lo: "M / d \<le> v"
          by (simp add: v_def M_def)
        show ?thesis
        proof (rule ccontr)
          assume "a \<noteq> max a M"
          then have aM: "a < M" by (simp add: max_def split: if_splits)
          with vM have "v = M" by (simp add: max_def)
          with lo have "M / d \<le> M" by simp
          from grow_fixed [OF d(1) d1 M0 this] aM a show False by simp
        qed
      qed
    qed
    with xs m show ?thesis by simp
  qed
qed

subsection \<open>The values written by output\_csv\<close>

lemma window_example_fields [simp]:
  "samplerate (window_example R mx a b) = R" "maxfreq (window_example R mx a b) = 0"
  "avg_int_in_sec (window_example R mx a b) = 2"
  "max_instead_of_avg (window_example R mx a b) = mx"
  "csv (window_example R mx a b) = []" "ncsv (window_example R mx a b) = 0"
  "aind (window_example R mx a b) = 0"
  by (simp_all add: window_example_def)

lemma consumer_ok_window_example:
  assumes "0 < R" and "R \<le> 1000000"
  shows "consumer_ok (window_example R mx a b)"
proof -
  let ?c = "init_state\<lparr>samplerate := R, maxfreq := 0, avg_int_in_sec := 2,
                           max_instead_of_avg := mx\<rparr>"
  have "inbuf_shape R (inbuf (started ?c))"
    using inbuf_shape_started [of ?c] assms by simp
  moreover have "0 \<le> R div 2" using assms by simp
  ultimately show ?thesis using assms
    by (simp add: consumer_ok_def config_ok_def window_example_def ampspec_shape_def
        INT_MAX_def PIPELINE_LEN_def)
qed

lemma window_example_bins:
  assumes "0 < R" and "dm < 3"
  shows "window_bins (window_example R mx a b) dm 0 = [a, b]"
proof -
  have "[0..<2] = [0, Suc 0]" by (simp add: upt_conv_Cons numeral_2_eq_2)
  moreover have "0 < nat (R div 2 + 1)" using assms by simp
  ultimately show ?thesis using assms
    by (simp add: window_bins_def window_example_def)
qed

lemma emitted_row_window_example:
  assumes "0 < R" and "dm < 3"
  shows "emitted_row (window_example R mx a b) dm =
     [if mx then reference_max (of_int R / 1000) 0 0 [a, b] else reference_mean 2 R [a, b]]"
  by (simp add: emitted_row_def emitted_value_def window_example_bins [OF assms])

lemma output_csv_row:
  assumes ok: "consumer_ok st" and dm: "dm < 3" and k: "int k < maxfreq st + 1"
    and env: "env (ncsv st) = SinkOK"
  shows "\<exists>st' row. output_csv env st dm = Inr (True, st') \<and> csv st' = csv st @ [(dm, row)] \<and>
     length row = nat (maxfreq st + 1) \<and> row ! k = emitted_value st dm k"
proof -
  from ok have c: "config_ok st"
    and sh: "ampspec_shape (samplerate st) (avg_int_in_sec st) (ampspec st)"
    by (simp_all add: consumer_ok_def)
  from k have "k < nat (maxfreq st + 1)" by simp
  then have "emitted_row st dm ! k = emitted_value st dm k" by (simp add: emitted_row_def)
  moreover have "length (emitted_row st dm) = nat (maxfreq st + 1)" by (simp add: emitted_row_def)
  ultimately show ?thesis
    using output_csv_result [OF c sh dm, of env] env by simp
qed

lemma window_bins_nonempty: "consumer_ok st \<Longrightarrow> window_bins st dm k \<noteq> []"
  by (simp add: consumer_ok_def config_ok_def window_bins_def)

text \<open>
  Claim C1, as amended. With the maximum policy, the value written for bin \<open>k\<close> of an
  axis is the result of the reference running maximum over the window entries of that
  bin, with the division by \<open>R / 1000\<close> at every position. With the sample rate 1000 of
  the program the divisor is 1 and the value is the maximum of the window, wherever it
  stands. For another sample rate and entries that are not negative, the value equals
  the maximum divided once by \<open>R / 1000\<close> only when the last entry is the maximum.
\<close>

theorem C1_running_max:
  assumes "consumer_ok st" and "dm < 3" and "int k < maxfreq st + 1"
    and "max_instead_of_avg st" and "env (ncsv st) = SinkOK"
  shows "\<exists>st' row. output_csv env st dm = Inr (True, st') \<and> csv st' = csv st @ [(dm, row)] \<and>
     length row = nat (maxfreq st + 1) \<and>
     row ! k = reference_max (of_int (samplerate st) / 1000) 0 0 (window_bins st dm k) \<and>
     (samplerate st = 1000 \<longrightarrow> row ! k = Max (set (window_bins st dm k))) \<and>
     (samplerate st \<noteq> 1000 \<and> (\<forall>x \<in> set (window_bins st dm k). 0 \<le> x) \<and>
      row ! k = Max (set (window_bins st dm k)) / (of_int (samplerate st) / 1000) \<longrightarrow>
        last (window_bins st dm k) = Max (set (window_bins st dm k)))"
proof -
  let ?xs = "window_bins st dm k" and ?d = "real_of_int (samplerate st) / 1000"
  from output_csv_row [where env = env, OF assms(1-3) assms(5)] obtain st' row where
    e: "output_csv env st dm = Inr (True, st')" "csv st' = csv st @ [(dm, row)]"
      "length row = nat (maxfreq st + 1)" and v: "row ! k = emitted_value st dm k"
    by blast
  from v assms(4) have r: "row ! k = reference_max ?d 0 0 ?xs"
    by (simp add: emitted_value_def)
  have ne: "?xs \<noteq> []" by (rule window_bins_nonempty [OF assms(1)])
  from assms(1) have d0: "0 < ?d" by (simp add: consumer_ok_def config_ok_def)
  have u: "row ! k = Max (set ?xs)" if "samplerate st = 1000"
    using r that reference_max_unit [OF ne] by simp
  have l: "last ?xs = Max (set ?xs)"
    if "samplerate st \<noteq> 1000" "\<forall>x \<in> set ?xs. 0 \<le> x" "row ! k = Max (set ?xs) / ?d"
  proof -
    from that(1) have "?d \<noteq> 1" by simp
    from reference_max_ideal_last [OF d0 this that(2) ne] that(3) r show ?thesis by simp
  qed
  from e r u l show ?thesis by blast
qed

theorem C1_running_max_witness:
  "consumer_ok (window_example 2000 True 1 6) \<and> (0 :: nat) < 3 \<and>
   int 0 < maxfreq (window_example 2000 True 1 6) + 1 \<and>
   max_instead_of_avg (window_example 2000 True 1 6) \<and>
   window_bins (window_example 2000 True 1 6) 0 0 = [1, 6] \<and>
   (\<exists>st'. output_csv (\<lambda>n. SinkOK) (window_example 2000 True 1 6) 0 = Inr (True, st') \<and>
      csv st' = [(0, [3])]) \<and>
   last (window_bins (window_example 2000 True 1 6) 0 0)
     = Max (set (window_bins (window_example 2000 True 1 6) 0 0))"
proof -
  let ?E = "window_example 2000 True 1 6"
  have ok: "consumer_ok ?E" by (rule consumer_ok_window_example) simp_all
  have b: "window_bins ?E 0 0 = [1, 6]" by (rule window_example_bins) simp_all
  have h: "(0 :: nat) < 3" "int 0 < maxfreq ?E + 1" "max_instead_of_avg ?E" by simp_all
  from C1_running_max [where env = "\<lambda>n. SinkOK", OF ok h refl] obtain st' row where
    e: "output_csv (\<lambda>n. SinkOK) ?E 0 = Inr (True, st')" and c: "csv st' = csv ?E @ [(0, row)]"
    and l: "length row = nat (maxfreq ?E + 1)"
    and r: "row ! 0 = reference_max (of_int (samplerate ?E) / 1000) 0 0 (window_bins ?E 0 0)"
    and i: "samplerate ?E \<noteq> 1000 \<and> (\<forall>x \<in> set (window_bins ?E 0 0). 0 \<le> x) \<and>
      row ! 0 = Max (set (window_bins ?E 0 0)) / (of_int (samplerate ?E) / 1000) \<longrightarrow>
        last (window_bins ?E 0 0) = Max (set (window_bins ?E 0 0))"
    by blast
  from r b have r3: "row ! 0 = 3" by simp
  from l have "length row = 1" by simp
  with r3 have "row = [3]" by (cases row) auto
  with c have c': "csv st' = [(0, [3])]" by simp
  from i r3 b have "last (window_bins ?E 0 0) = Max (set (window_bins ?E 0 0))" by simp
  with ok b e c' show ?thesis by simp
qed

text \<open>
  Sample rate 1000, window entries 5 and 3: the value written is 5, the maximum
  divided once by \<open>1000 / 1000\<close>, and the maximum is not at the last position.
\<close>

theorem C1_ideal_not_last_counterexample:
  "map_sum id (\<lambda>r. csv (snd r)) (output_csv (\<lambda>n. SinkOK) (window_example 1000 True 5 3) 0)
     = Inr [(0, [5])] \<and>
   window_bins (window_example 1000 True 5 3) 0 0 = [5, 3] \<and>
   Max (set [5, 3 :: real]) / (real_of_int 1000 / 1000) = 5 \<and>
   last [5, 3 :: real] \<noteq> Max (set [5, 3])"
proof -
  let ?E = "window_example 1000 True 5 3"
  have ok: "consumer_ok ?E" by (rule consumer_ok_window_example) simp_all
  then have c: "config_ok ?E"
    and sh: "ampspec_shape (samplerate ?E) (avg_int_in_sec ?E) (ampspec ?E)"
    by (simp_all add: consumer_ok_def)
  have b: "window_bins ?E 0 0 = [5, 3]" by (rule window_example_bins) simp_all
  have "emitted_row ?E 0 = [5]" by (simp add: emitted_row_window_example)
  with output_csv_result [OF c sh, of 0 "\<lambda>n. SinkOK"]
  have "output_csv (\<lambda>n. SinkOK) ?E 0 = Inr (True, ?E\<lparr>ncsv := 1, csv := [(0, [5])]\<rparr>)"
    by simp
  with b show ?thesis by simp
qed


text \<open>
  Claim C3. With the mean policy, the value written for bin \<open>k\<close> of an axis is the sum of
  the window entries of that bin divided by \<open>W * R / 1000\<close>; when the \<open>W\<close> entries all
  equal \<open>c\<close>, it is \<open>c / (R / 1000)\<close>.
\<close>

theorem C3_mean_of_constant_window:
  assumes "consumer_ok st" and "dm < 3" and "int k < maxfreq st + 1"
    and "\<not> max_instead_of_avg st" and "env (ncsv st) = SinkOK"
  shows "\<exists>st' row. output_csv env st dm = Inr (True, st') \<and> csv st' = csv st @ [(dm, row)] \<and>
     length row = nat (maxfreq st + 1) \<and>
     row ! k = sum_list (window_bins st dm k)
                / (of_int (avg_int_in_sec st) * of_int (samplerate st) / 1000) \<and>
     ((\<forall>j < nat (avg_int_in_sec st). ampspec st ! dm ! j ! k = c) \<longrightarrow>
        row ! k = c / (of_int (samplerate st) / 1000))"
proof -
  let ?W = "avg_int_in_sec st" and ?R = "samplerate st"
  from output_csv_row [where env = env, OF assms(1-3) assms(5)] obtain st' row where
    e: "output_csv env st dm = Inr (True, st')" "csv st' = csv st @ [(dm, row)]"
      "length row = nat (maxfreq st + 1)" and v: "row ! k = emitted_value st dm k"
    by blast
  from v assms(4) have r: "row ! k = sum_list (window_bins st dm k)
                / (of_int ?W * of_int ?R / 1000)"
    by (simp add: emitted_value_def reference_mean_def)
  from assms(1) have W: "0 < ?W" and R: "0 < ?R" by (simp_all add: consumer_ok_def config_ok_def)
  have "row ! k = c / (of_int ?R / 1000)" if "\<forall>j < nat ?W. ampspec st ! dm ! j ! k = c"
  proof -
    from that have "window_bins st dm k = replicate (nat ?W) c"
      unfolding window_bins_def by (intro nth_equalityI) simp_all
    then have "sum_list (window_bins st dm k) = of_int ?W * c"
      using W by (simp add: sum_list_replicate)
    with r W R show ?thesis by simp
  qed
  with e r show ?thesis by blast
qed

theorem C3_mean_of_constant_window_witness:
  "consumer_ok (window_example 2000 False 4 4) \<and> (0 :: nat) < 3 \<and>
   int 0 < maxfreq (window_example 2000 False 4 4) + 1 \<and>
   \<not> max_instead_of_avg (window_example 2000 False 4 4) \<and>
   window_bins (window_example 2000 False 4 4) 0 0 = [4, 4] \<and>
   (\<exists>st'. output_csv (\<lambda>n. SinkOK) (window_example 2000 False 4 4) 0 = Inr (True, st') \<and>
      csv st' = [(0, [2])])"
proof -
  let ?E = "window_example 2000 False 4 4"
  have ok: "consumer_ok ?E" by (rule consumer_ok_window_example) simp_all
  have b: "window_bins ?E 0 0 = [4, 4]" by (rule window_example_bins) simp_all
  have h: "(0 :: nat) < 3" "int 0 < maxfreq ?E + 1" "\<not> max_instead_of_avg ?E" by simp_all
  from C3_mean_of_constant_window [where env = "\<lambda>n. SinkOK" and c = 4, OF ok h refl]
  obtain st' row where
    e: "output_csv (\<lambda>n. SinkOK) ?E 0 = Inr (True, st')" and c: "csv st' = csv ?E @ [(0, row)]"
    and l: "length row = nat (maxfreq ?E + 1)"
    and r: "row ! 0 = sum_list (window_bins ?E 0 0)
                / (of_int (avg_int_in_sec ?E) * of_int (samplerate ?E) / 1000)"
    by blast
  from r b have r2: "row ! 0 = 2" by simp
  from l have "length row = 1" by simp
  with r2 have "row = [2]" by (cases row) auto
  with c have "csv st' = [(0, [2])]" by simp
  with ok b e show ?thesis by simp
qed

subsection \<open>The body of process\<close>

lemma ampspec_shape_update:
  assumes "ampspec_shape R W amp" and "i < 3" and "int (length sp) = R div 2 + 1"
  shows "ampspec_shape R W (amp[i := (amp ! i)[a := sp]])"
proof -
  from assms have il: "i < length amp" by (simp add: ampspec_shape_def)
  then have "amp ! i \<in> set amp" by simp
  with assms have lw: "int (length (amp ! i)) = W"
    and ls: "\<forall>s \<in> set (amp ! i). int (length s) = R div 2 + 1"
    by (auto simp: ampspec_shape_def)
  let ?w = "(amp ! i)[a := sp]"
  have "set ?w \<subseteq> insert sp (set (amp ! i))" by (rule set_update_subset_insert)
  with ls assms(3) have ls': "\<forall>s \<in> set ?w. int (length s) = R div 2 + 1" by auto
  have "set (amp[i := ?w]) \<subseteq> insert ?w (set amp)" by (rule set_update_subset_insert)
  with ls' lw assms(1) show ?thesis by (auto simp: ampspec_shape_def)
qed

lemma spectrum_axis_ok:
  assumes ok: "consumer_ok st" and ptr: "ptr < PIPELINE_LEN" and i: "i < 3"
  shows "\<exists>amp'. spectrum_axis rfftw st ptr i =
        Inr (st\<lparr>ampspec := (ampspec st)[i := (ampspec st ! i)[aind st := amp']]\<rparr>) \<and>
     calc_amplitude_spectrum rfftw (inbuf st ! ptr ! i) (samplerate st)
        (ampspec st ! i ! aind st) = Inr amp' \<and>
     consumer_ok (st\<lparr>ampspec := (ampspec st)[i := (ampspec st ! i)[aind st := amp']]\<rparr>)"
proof -
  let ?R = "samplerate st" and ?W = "avg_int_in_sec st"
  from ok have c: "config_ok st" and ib: "inbuf_shape ?R (inbuf st)"
    and sh: "ampspec_shape ?R ?W (ampspec st)" and a: "int (aind st) < ?W"
    by (simp_all add: consumer_ok_def)
  from c have R: "0 < ?R" "?R < INT_MAX" by (simp_all add: config_ok_def)
  from ib ptr have pl: "ptr < length (inbuf st)" by (simp add: inbuf_shape_def)
  then have "inbuf st ! ptr \<in> set (inbuf st)" by simp
  with ib have l3: "length (inbuf st ! ptr) = 3"
    and la: "\<forall>x \<in> set (inbuf st ! ptr). int (length x) = ?R"
    by (auto simp: inbuf_shape_def)
  from l3 i have "inbuf st ! ptr ! i \<in> set (inbuf st ! ptr)" by simp
  with la have li: "int (length (inbuf st ! ptr ! i)) = ?R" by blast
  from sh i have al: "i < length (ampspec st)" by (simp add: ampspec_shape_def)
  then have "ampspec st ! i \<in> set (ampspec st)" by simp
  with sh have lw: "int (length (ampspec st ! i)) = ?W"
    and ls: "\<forall>s \<in> set (ampspec st ! i). int (length s) = ?R div 2 + 1"
    by (auto simp: ampspec_shape_def)
  from lw a have wl: "aind st < length (ampspec st ! i)" by simp
  then have "ampspec st ! i ! aind st \<in> set (ampspec st ! i)" by simp
  with ls have lsp: "int (length (ampspec st ! i ! aind st)) = ?R div 2 + 1" by blast
  have "int (nat ?R div 2 + 1) = ?R div 2 + 1" using R by (simp add: zdiv_int)
  with lsp have lsp': "length (ampspec st ! i ! aind st) = nat ?R div 2 + 1" by linarith
  from li have inl: "nat ?R \<le> length (inbuf st ! ptr ! i)" by simp
  from calc_amplitude_spectrum_result [OF R inl lsp', of rfftw] obtain amp' where
    e: "calc_amplitude_spectrum rfftw (inbuf st ! ptr ! i) ?R (ampspec st ! i ! aind st) = Inr amp'"
    and l': "length amp' = nat ?R div 2 + 1"
    by blast
  from l' \<open>int (nat ?R div 2 + 1) = ?R div 2 + 1\<close> have l'': "int (length amp') = ?R div 2 + 1"
    by simp
  have s: "spectrum_axis rfftw st ptr i =
        Inr (st\<lparr>ampspec := (ampspec st)[i := (ampspec st ! i)[aind st := amp']]\<rparr>)"
    using pl l3 i al wl e by (simp add: spectrum_axis_def rd_def)
  have "consumer_ok (st\<lparr>ampspec := (ampspec st)[i := (ampspec st ! i)[aind st := amp']]\<rparr>)"
    using ok ampspec_shape_update [OF sh i l'', of "aind st"]
    by (simp add: consumer_ok_def config_ok_def)
  with s e show ?thesis by blast
qed

lemma output_csv_step:
  assumes c: "config_ok st"
    and sh: "ampspec_shape (samplerate st) (avg_int_in_sec st) (ampspec st)"
    and dm: "dm < 3"
  shows "\<exists>r st'. output_csv env st dm = Inr (r, st') \<and>
     st' = st\<lparr>stdout := stdout st', csv := csv st', ncsv := ncsv st + 1\<rparr> \<and>
     (env (ncsv st) = SinkOK \<longrightarrow>
        csv st' = csv st @ [(dm, emitted_row st dm)] \<and> stdout st' = stdout st)"
proof (cases "env (ncsv st)")
  case PrepareFails
  then show ?thesis unfolding output_csv_result [OF c sh dm] by auto
next
  case ReopenFails
  then show ?thesis unfolding output_csv_result [OF c sh dm] by auto
next
  case WriteFails
  then show ?thesis unfolding output_csv_result [OF c sh dm] by auto
next
  case SinkOK
  then show ?thesis unfolding output_csv_result [OF c sh dm] by auto
qed

lemma emit_all_ok:
  assumes c: "config_ok st"
    and sh: "ampspec_shape (samplerate st) (avg_int_in_sec st) (ampspec st)"
  shows "\<exists>st'. emit_all env st = Inr st' \<and>
     st' = st\<lparr>stdout := stdout st', csv := csv st', ncsv := ncsv st + 3\<rparr> \<and>
     (env (ncsv st) = SinkOK \<and> env (ncsv st + 1) = SinkOK \<and> env (ncsv st + 2) = SinkOK \<longrightarrow>
        csv st' = csv st @ [(0, emitted_row st 0), (1, emitted_row st 1), (2, emitted_row st 2)])"
proof -
  from output_csv_step [OF c sh, of 0 env] obtain r0 s0 where
    e0: "output_csv env st 0 = Inr (r0, s0)" and
    f0: "s0 = st\<lparr>stdout := stdout s0, csv := csv s0, ncsv := ncsv st + 1\<rparr>" and
    k0: "env (ncsv st) = SinkOK \<longrightarrow> csv s0 = csv st @ [(0, emitted_row st 0)]"
    by auto
  have c0: "config_ok s0"
    and sh0: "ampspec_shape (samplerate s0) (avg_int_in_sec s0) (ampspec s0)"
    and n0: "ncsv s0 = ncsv st + 1" and r0: "emitted_row s0 = emitted_row st"
    using c sh by (subst f0, simp add: config_ok_def emitted_row_def emitted_value_def
        window_bins_def fun_eq_iff)+
  from output_csv_step [OF c0 sh0, of 1 env] obtain r1 s1 where
    e1: "output_csv env s0 1 = Inr (r1, s1)" and
    f1: "s1 = s0\<lparr>stdout := stdout s1, csv := csv s1, ncsv := ncsv s0 + 1\<rparr>" and
    k1: "env (ncsv s0) = SinkOK \<longrightarrow> csv s1 = csv s0 @ [(1, emitted_row s0 1)]"
    by auto
  have c1: "config_ok s1"
    and sh1: "ampspec_shape (samplerate s1) (avg_int_in_sec s1) (ampspec s1)"
    and n1: "ncsv s1 = ncsv s0 + 1" and r1: "emitted_row s1 = emitted_row s0"
    using c0 sh0 by (subst f1, simp add: config_ok_def emitted_row_def emitted_value_def
        window_bins_def fun_eq_iff)+
  from output_csv_step [OF c1 sh1, of 2 env] obtain r2 s2 where
    e2: "output_csv env s1 2 = Inr (r2, s2)" and
    f2: "s2 = s1\<lparr>stdout := stdout s2, csv := csv s2, ncsv := ncsv s1 + 1\<rparr>" and
    k2: "env (ncsv s1) = SinkOK \<longrightarrow> csv s2 = csv s1 @ [(2, emitted_row s1 2)]"
    by auto
  have e: "emit_all env st = Inr s2" using e0 e1 e2 by (simp add: emit_all_def)
  have "s2 = st\<lparr>stdout := stdout s2, csv := csv s2, ncsv := ncsv st + 3\<rparr>"
    by (subst f2, subst f1, subst f0) (simp add: n1 n0)
  moreover have "csv s2 = csv st @ [(0, emitted_row st 0), (1, emitted_row st 1), (2, emitted_row st 2)]"
    if "env (ncsv st) = SinkOK \<and> env (ncsv st + 1) = SinkOK \<and> env (ncsv st + 2) = SinkOK"
    using that k0 k1 k2 n0 n1 r0 r1 by (simp add: add.assoc)
  ultimately show ?thesis using e by blast
qed


lemma ingest_slot_ok:
  assumes ok: "consumer_ok st" and ptr: "ptr < PIPELINE_LEN"
  shows "\<exists>st'. ingest_slot rfftw env st ptr = Inr st' \<and> consumer_ok st' \<and>
     unproc st' = (unproc st)[ptr := False] \<and>
     ibptr st' = ibptr st \<and> rbufi st' = rbufi st \<and> inbuf st' = inbuf st \<and>
     samplerate st' = samplerate st \<and> avg_int_in_sec st' = avg_int_in_sec st \<and>
     maxfreq st' = maxfreq st \<and> max_instead_of_avg st' = max_instead_of_avg st \<and>
     aind st' = (if int (aind st) + 1 = avg_int_in_sec st then 0 else aind st + 1) \<and>
     ncsv st' = (if int (aind st) + 1 = avg_int_in_sec st then ncsv st + 3 else ncsv st) \<and>
     (int (aind st) + 1 \<noteq> avg_int_in_sec st \<longrightarrow> csv st' = csv st \<and> stdout st' = stdout st) \<and>
     (int (aind st) + 1 = avg_int_in_sec st \<and> env (ncsv st) = SinkOK \<and>
      env (ncsv st + 1) = SinkOK \<and> env (ncsv st + 2) = SinkOK \<longrightarrow>
        csv st' = csv st @ [(0, emitted_row st' 0), (1, emitted_row st' 1), (2, emitted_row st' 2)]) \<and>
     (\<forall>i < 3. calc_amplitude_spectrum rfftw (inbuf st ! ptr ! i) (samplerate st)
                 (ampspec st ! i ! aind st) = Inr (ampspec st' ! i ! aind st))"
proof -
  let ?a = "aind st" and ?A = "ampspec st" and ?W = "avg_int_in_sec st"
  from ok have sh: "ampspec_shape (samplerate st) ?W ?A" and aW: "int ?a < ?W"
    and ul: "length (unproc st) = PIPELINE_LEN"
    by (simp_all add: consumer_ok_def)
  from sh have l3: "length ?A = 3" by (simp add: ampspec_shape_def)
  have wl: "?a < length (?A ! i)" if "i < 3" for i
  proof -
    from that l3 have "?A ! i \<in> set ?A" by simp
    with sh have "int (length (?A ! i)) = ?W" by (auto simp: ampspec_shape_def)
    with aW show ?thesis by simp
  qed
  from spectrum_axis_ok [OF ok ptr, of 0 rfftw] obtain amp0 where
    e0: "spectrum_axis rfftw st ptr 0 = Inr (st\<lparr>ampspec := ?A[0 := (?A ! 0)[?a := amp0]]\<rparr>)"
    and c0: "calc_amplitude_spectrum rfftw (inbuf st ! ptr ! 0) (samplerate st) (?A ! 0 ! ?a) = Inr amp0"
    and ok0: "consumer_ok (st\<lparr>ampspec := ?A[0 := (?A ! 0)[?a := amp0]]\<rparr>)"
    by auto
  let ?A1 = "?A[0 := (?A ! 0)[?a := amp0]]"
  let ?s0 = "st\<lparr>ampspec := ?A1\<rparr>"
  from spectrum_axis_ok [OF ok0, of ptr 1 rfftw] ptr obtain amp1 where
    e1: "spectrum_axis rfftw ?s0 ptr 1 = Inr (st\<lparr>ampspec := ?A1[1 := (?A1 ! 1)[?a := amp1]]\<rparr>)"
    and c1: "calc_amplitude_spectrum rfftw (inbuf st ! ptr ! 1) (samplerate st) (?A1 ! 1 ! ?a) = Inr amp1"
    and ok1: "consumer_ok (st\<lparr>ampspec := ?A1[1 := (?A1 ! 1)[?a := amp1]]\<rparr>)"
    by auto
  let ?A2 = "?A1[1 := (?A1 ! 1)[?a := amp1]]"
  let ?s1 = "st\<lparr>ampspec := ?A2\<rparr>"
  from spectrum_axis_ok [OF ok1, of ptr 2 rfftw] ptr obtain amp2 where
    e2: "spectrum_axis rfftw ?s1 ptr 2 = Inr (st\<lparr>ampspec := ?A2[2 := (?A2 ! 2)[?a := amp2]]\<rparr>)"
    and c2: "calc_amplitude_spectrum rfftw (inbuf st ! ptr ! 2) (samplerate st) (?A2 ! 2 ! ?a) = Inr amp2"
    and ok2: "consumer_ok (st\<lparr>ampspec := ?A2[2 := (?A2 ! 2)[?a := amp2]]\<rparr>)"
    by auto
  define A3 where "A3 = ?A2[2 := (?A2 ! 2)[?a := amp2]]"
  have A1: "?A1 ! 1 = ?A ! 1" and A2: "?A2 ! 2 = ?A ! 2" by simp_all
  have sp: "\<forall>i < 3. calc_amplitude_spectrum rfftw (inbuf st ! ptr ! i) (samplerate st)
                 (?A ! i ! ?a) = Inr (A3 ! i ! ?a)"
  proof (intro allI impI)
    fix i :: nat assume "i < 3"
    then consider "i = 0" | "i = 1" | "i = 2" by linarith
    then show "calc_amplitude_spectrum rfftw (inbuf st ! ptr ! i) (samplerate st)
                 (?A ! i ! ?a) = Inr (A3 ! i ! ?a)"
    proof cases
      case 1
      with c0 l3 wl [of 0] show ?thesis by (simp add: A3_def)
    next
      case 2
      with c1 l3 wl [of 1] show ?thesis by (simp add: A3_def)
    next
      case 3
      with c2 l3 wl [of 2] show ?thesis by (simp add: A3_def)
    qed
  qed
  define s2 where "s2 = st\<lparr>ampspec := A3\<rparr>"
  have ok2': "consumer_ok s2" using ok2 by (simp add: s2_def A3_def)
  have pre: "ingest_slot rfftw env st ptr =
      (case (if int (?a + 1) = ?W then emit_all env (s2\<lparr>aind := 0\<rparr>) else Inr (s2\<lparr>aind := ?a + 1\<rparr>)) of
         Inl e \<Rightarrow> Inl e
       | Inr st4 \<Rightarrow>
           (case wr (unproc st4) ptr False of
              Inl e \<Rightarrow> Inl e
            | Inr u \<Rightarrow> Inr (st4\<lparr>unproc := u\<rparr>)))"
    using ptr e0 e1 e2 by (simp add: ingest_slot_def Let_def s2_def A3_def)
  show ?thesis
  proof (cases "int ?a + 1 = ?W")
    case False
    define st' where "st' = s2\<lparr>aind := ?a + 1, unproc := (unproc st)[ptr := False]\<rparr>"
    have e: "ingest_slot rfftw env st ptr = Inr st'"
      using False ul ptr by (simp add: pre wr_def st'_def s2_def)
    have "consumer_ok st'"
      using ok2' False aW by (simp add: consumer_ok_def config_ok_def st'_def s2_def)
    with e False sp show ?thesis by (simp add: st'_def s2_def)
  next
    case True
    let ?s3 = "s2\<lparr>aind := 0\<rparr>"
    have c3: "config_ok ?s3"
      and sh3: "ampspec_shape (samplerate ?s3) (avg_int_in_sec ?s3) (ampspec ?s3)"
      using ok2' by (simp_all add: consumer_ok_def config_ok_def)
    from emit_all_ok [OF c3 sh3, of env] obtain s4 where
      e4: "emit_all env ?s3 = Inr s4" and
      f4: "s4 = ?s3\<lparr>stdout := stdout s4, csv := csv s4, ncsv := ncsv ?s3 + 3\<rparr>" and
      k4: "env (ncsv ?s3) = SinkOK \<and> env (ncsv ?s3 + 1) = SinkOK \<and> env (ncsv ?s3 + 2) = SinkOK \<longrightarrow>
        csv s4 = csv ?s3 @ [(0, emitted_row ?s3 0), (1, emitted_row ?s3 1), (2, emitted_row ?s3 2)]"
      by blast
    define st' where "st' = s4\<lparr>unproc := (unproc st)[ptr := False]\<rparr>"
    have u4: "unproc s4 = unproc st" by (subst f4) (simp add: s2_def)
    have e: "ingest_slot rfftw env st ptr = Inr st'"
      using True ul ptr e4 u4 by (simp add: pre wr_def st'_def)
    have f: "st' = st\<lparr>ampspec := A3, aind := 0, stdout := stdout s4, csv := csv s4,
        ncsv := ncsv st + 3, unproc := (unproc st)[ptr := False]\<rparr>"
      unfolding st'_def by (subst f4) (simp add: s2_def)
    have r: "emitted_row st' = emitted_row ?s3"
      by (subst f) (simp add: emitted_row_def emitted_value_def window_bins_def fun_eq_iff s2_def)
    have "consumer_ok st'"
      using ok2' aW by (subst f) (simp add: consumer_ok_def config_ok_def s2_def)
    moreover have "csv st' = csv s4" by (simp add: st'_def)
    moreover have "\<forall>i < 3. calc_amplitude_spectrum rfftw (inbuf st ! ptr ! i) (samplerate st)
                 (?A ! i ! ?a) = Inr (ampspec st' ! i ! ?a)"
      using sp by (subst f) simp
    moreover have "unproc st' = (unproc st)[ptr := False]" "ibptr st' = ibptr st"
      "rbufi st' = rbufi st" "inbuf st' = inbuf st" "samplerate st' = samplerate st"
      "avg_int_in_sec st' = ?W" "maxfreq st' = maxfreq st"
      "max_instead_of_avg st' = max_instead_of_avg st" "aind st' = 0" "ncsv st' = ncsv st + 3"
      by (subst f, simp)+
    ultimately show ?thesis using e True k4 r by (simp add: s2_def)
  qed
qed

subsection \<open>process as a scan in circular order\<close>

lemma process_slot_eq:
  assumes "length (unproc st) = PIPELINE_LEN"
  shows "process_slot rfftw env st k =
     (if unproc st ! ((ibptr st + PIPELINE_LEN div 10 + k) mod PIPELINE_LEN)
      then ingest_slot rfftw env st ((ibptr st + PIPELINE_LEN div 10 + k) mod PIPELINE_LEN)
      else Inr st)"
proof -
  have eq: "ibptr st + k + PIPELINE_LEN div 10 = ibptr st + PIPELINE_LEN div 10 + k" by simp
  have "(ibptr st + PIPELINE_LEN div 10 + k) mod PIPELINE_LEN < PIPELINE_LEN"
    by (simp add: PIPELINE_LEN_def)
  then show ?thesis using assms
    unfolding process_slot_def Let_def wrap_ptr_mod eq by (simp add: rd_def)
qed

lemma process_from_drain:
  assumes "consumer_ok st"
  shows "process_from rfftw env st ks =
     drain_ready rfftw env st
       (map (\<lambda>k. (ibptr st + PIPELINE_LEN div 10 + k) mod PIPELINE_LEN) ks)"
  using assms
proof (induction ks arbitrary: st)
  case Nil
  then show ?case by simp
next
  case (Cons k ks)
  let ?p = "(ibptr st + PIPELINE_LEN div 10 + k) mod PIPELINE_LEN"
  from Cons.prems have ul: "length (unproc st) = PIPELINE_LEN" by (simp add: consumer_ok_def)
  have p: "?p < PIPELINE_LEN" by (simp add: PIPELINE_LEN_def)
  show ?case
  proof (cases "unproc st ! ?p")
    case False
    with Cons.IH [OF Cons.prems] show ?thesis by (simp add: process_slot_eq [OF ul])
  next
    case True
    from ingest_slot_ok [OF Cons.prems p, of rfftw env] obtain st' where
      e: "ingest_slot rfftw env st ?p = Inr st'" and ok': "consumer_ok st'"
      and ib: "ibptr st' = ibptr st"
      by blast
    from Cons.IH [OF ok'] ib True e show ?thesis by (simp add: process_slot_eq [OF ul])
  qed
qed

lemma drain_ready_ok:
  assumes "consumer_ok st" and "\<forall>p \<in> set ps. p < PIPELINE_LEN"
  shows "\<exists>st'. drain_ready rfftw env st ps = Inr st' \<and> consumer_ok st' \<and>
     unproc st' = fold (\<lambda>p u. u[p := False]) ps (unproc st) \<and>
     ibptr st' = ibptr st \<and> rbufi st' = rbufi st \<and> inbuf st' = inbuf st \<and>
     samplerate st' = samplerate st \<and> avg_int_in_sec st' = avg_int_in_sec st \<and>
     maxfreq st' = maxfreq st \<and> max_instead_of_avg st' = max_instead_of_avg st"
  using assms
proof (induction ps arbitrary: st)
  case Nil
  then show ?case by simp
next
  case (Cons p ps)
  from Cons.prems have p: "p < PIPELINE_LEN" and ps: "\<forall>p \<in> set ps. p < PIPELINE_LEN" by simp_all
  show ?case
  proof (cases "unproc st ! p")
    case False
    then have "(unproc st)[p := False] = unproc st" by (metis list_update_id)
    with Cons.IH [OF Cons.prems(1) ps] False show ?thesis by simp
  next
    case True
    from ingest_slot_ok [OF Cons.prems(1) p, of rfftw env] obtain s1 where
      e: "ingest_slot rfftw env st p = Inr s1" and ok1: "consumer_ok s1"
      and f: "unproc s1 = (unproc st)[p := False]" "ibptr s1 = ibptr st" "rbufi s1 = rbufi st"
        "inbuf s1 = inbuf st" "samplerate s1 = samplerate st"
        "avg_int_in_sec s1 = avg_int_in_sec st" "maxfreq s1 = maxfreq st"
        "max_instead_of_avg s1 = max_instead_of_avg st"
      by blast
    from Cons.IH [OF ok1 ps] e True f show ?thesis by simp
  qed
qed

lemma fold_clear_length: "length (fold (\<lambda>p u. u[p := False]) ps u) = length u"
  by (induction ps arbitrary: u) simp_all

lemma fold_clear_nth:
  "i < length u \<Longrightarrow> fold (\<lambda>p u. u[p := False]) ps u ! i \<longleftrightarrow> u ! i \<and> i \<notin> set ps"
proof (induction ps arbitrary: u)
  case Nil
  then show ?case by simp
next
  case (Cons a ps)
  from Cons.prems have "u[a := False] ! i \<longleftrightarrow> u ! i \<and> i \<noteq> a"
    by (cases "i = a") simp_all
  moreover from Cons.prems have "i < length (u[a := False])" by simp
  from Cons.IH [OF this]
  have "fold (\<lambda>p u. u[p := False]) ps (u[a := False]) ! i \<longleftrightarrow>
      u[a := False] ! i \<and> i \<notin> set ps" .
  ultimately show ?case by auto
qed

lemma scan_onto:
  assumes "i < PIPELINE_LEN"
  shows "\<exists>k < PIPELINE_LEN. (c + k) mod PIPELINE_LEN = i"
proof -
  let ?P = "PIPELINE_LEN"
  have P: "0 < ?P" by (simp add: PIPELINE_LEN_def)
  let ?k = "(i + (?P - c mod ?P)) mod ?P"
  have "(c + ?k) mod ?P = (c + (i + (?P - c mod ?P))) mod ?P"
    by (simp add: mod_add_right_eq)
  also have "\<dots> = (c mod ?P + (i + (?P - c mod ?P))) mod ?P"
    by (simp add: mod_add_left_eq)
  also have "c mod ?P + (i + (?P - c mod ?P)) = i + ?P"
  proof -
    have "c mod ?P < ?P" using P by simp
    then show ?thesis by linarith
  qed
  also have "(i + ?P) mod ?P = i" using assms by simp
  finally have "(c + ?k) mod ?P = i" .
  moreover have "?k < ?P" using P by simp
  ultimately show ?thesis by blast
qed

lemma set_scan_order: "set (scan_order st) = {0..<PIPELINE_LEN}"
proof
  show "set (scan_order st) \<subseteq> {0..<PIPELINE_LEN}"
    by (auto simp: scan_order_def PIPELINE_LEN_def)
next
  show "{0..<PIPELINE_LEN} \<subseteq> set (scan_order st)"
  proof
    fix i assume "i \<in> {0..<PIPELINE_LEN}"
    then have "i < PIPELINE_LEN" by simp
    from scan_onto [OF this, of "ibptr st + PIPELINE_LEN div 10"]
    obtain k where "k < PIPELINE_LEN" "(ibptr st + PIPELINE_LEN div 10 + k) mod PIPELINE_LEN = i"
      by blast
    then show "i \<in> set (scan_order st)" by (force simp: scan_order_def)
  qed
qed

lemma distinct_scan_order: "distinct (scan_order st)"
proof -
  have "length (scan_order st) = PIPELINE_LEN" by (simp add: scan_order_def)
  moreover have "card (set (scan_order st)) = PIPELINE_LEN" by (simp add: set_scan_order)
  ultimately show ?thesis by (simp add: card_distinct)
qed

lemma process_ok:
  assumes "consumer_ok st"
  shows "process rfftw env st = drain_ready rfftw env st (scan_order st) \<and>
     (\<exists>st'. process rfftw env st = Inr st' \<and> consumer_ok st' \<and>
     unproc st' = replicate PIPELINE_LEN False \<and>
     ibptr st' = ibptr st \<and> rbufi st' = rbufi st \<and> inbuf st' = inbuf st \<and>
     samplerate st' = samplerate st \<and> avg_int_in_sec st' = avg_int_in_sec st \<and>
     maxfreq st' = maxfreq st \<and> max_instead_of_avg st' = max_instead_of_avg st)"
proof -
  have d: "process rfftw env st = drain_ready rfftw env st (scan_order st)"
    unfolding process_def scan_order_def by (rule process_from_drain [OF assms])
  have "\<forall>p \<in> set (scan_order st). p < PIPELINE_LEN" by (simp add: set_scan_order)
  from drain_ready_ok [OF assms this, of rfftw env] obtain st' where
    e: "drain_ready rfftw env st (scan_order st) = Inr st'" and ok': "consumer_ok st'"
    and u: "unproc st' = fold (\<lambda>p u. u[p := False]) (scan_order st) (unproc st)"
    and f: "ibptr st' = ibptr st" "rbufi st' = rbufi st" "inbuf st' = inbuf st"
      "samplerate st' = samplerate st" "avg_int_in_sec st' = avg_int_in_sec st"
      "maxfreq st' = maxfreq st" "max_instead_of_avg st' = max_instead_of_avg st"
    by blast
  from assms have ul: "length (unproc st) = PIPELINE_LEN" by (simp add: consumer_ok_def)
  have "unproc st' = replicate PIPELINE_LEN False"
  proof (rule nth_equalityI)
    show "length (unproc st') = length (replicate PIPELINE_LEN False)"
      by (simp add: u fold_clear_length ul)
  next
    fix i assume "i < length (unproc st')"
    then have i: "i < PIPELINE_LEN" by (simp add: u fold_clear_length ul)
    then have "i \<in> set (scan_order st)" by (simp add: set_scan_order)
    with i ul show "unproc st' ! i = replicate PIPELINE_LEN False ! i"
      by (simp add: u fold_clear_nth)
  qed
  with d e ok' f show ?thesis by simp
qed

lemma scan_order_nth:
  "k < PIPELINE_LEN \<Longrightarrow>
   scan_order st ! k = (ibptr st + PIPELINE_LEN div 10 + k) mod PIPELINE_LEN"
  by (simp add: scan_order_def)

text \<open>
  Claim C5, as amended. In a well-formed state one call of \<^verbatim>\<open>process\<close> is a drain of the
  \<open>PIPELINE_LEN\<close> slots in the order that starts at the slot \<open>PIPELINE_LEN div 10\<close>
  positions after the write pointer (index \<open>(ibptr + PIPELINE_LEN div 10) mod PIPELINE_LEN\<close>)
  and goes up by one, wrapping to 0, through every slot once. It returns with every
  ready flag cleared and the write pointer untouched. Processing a ready slot computes
  one spectrum per axis from the slot into the window at the fill index and clears the
  flag of that slot.
\<close>

theorem C5_drain_scan:
  assumes "consumer_ok st"
  shows "process rfftw env st = drain_ready rfftw env st (scan_order st) \<and>
     length (scan_order st) = PIPELINE_LEN \<and>
     scan_order st ! 0 = (ibptr st + PIPELINE_LEN div 10) mod PIPELINE_LEN \<and>
     (\<forall>k. Suc k < PIPELINE_LEN \<longrightarrow>
        scan_order st ! Suc k = (scan_order st ! k + 1) mod PIPELINE_LEN) \<and>
     distinct (scan_order st) \<and> set (scan_order st) = {0..<PIPELINE_LEN} \<and>
     (\<exists>st'. process rfftw env st = Inr st' \<and> consumer_ok st' \<and>
        unproc st' = replicate PIPELINE_LEN False \<and> ibptr st' = ibptr st) \<and>
     (\<forall>p < PIPELINE_LEN. \<exists>s'. ingest_slot rfftw env st p = Inr s' \<and>
        unproc s' = (unproc st)[p := False] \<and>
        (\<forall>i < 3. calc_amplitude_spectrum rfftw (inbuf st ! p ! i) (samplerate st)
                    (ampspec st ! i ! aind st) = Inr (ampspec s' ! i ! aind st)))"
proof -
  have P: "0 < PIPELINE_LEN" by (simp add: PIPELINE_LEN_def)
  have n: "scan_order st ! Suc k = (scan_order st ! k + 1) mod PIPELINE_LEN"
    if "Suc k < PIPELINE_LEN" for k
    using that by (simp add: scan_order_nth mod_Suc_eq)
  have s: "\<exists>s'. ingest_slot rfftw env st p = Inr s' \<and>
        unproc s' = (unproc st)[p := False] \<and>
        (\<forall>i < 3. calc_amplitude_spectrum rfftw (inbuf st ! p ! i) (samplerate st)
                    (ampspec st ! i ! aind st) = Inr (ampspec s' ! i ! aind st))"
    if "p < PIPELINE_LEN" for p
    using ingest_slot_ok [OF assms that, of rfftw env] by blast
  from process_ok [OF assms, of rfftw env]
  have "process rfftw env st = drain_ready rfftw env st (scan_order st)"
    and "\<exists>st'. process rfftw env st = Inr st' \<and> consumer_ok st' \<and>
        unproc st' = replicate PIPELINE_LEN False \<and> ibptr st' = ibptr st"
    by blast+
  moreover have "length (scan_order st) = PIPELINE_LEN" by (simp add: scan_order_def)
  moreover have "scan_order st ! 0 = (ibptr st + PIPELINE_LEN div 10) mod PIPELINE_LEN"
    using scan_order_nth [OF P, of st] by simp
  ultimately show ?thesis using n s distinct_scan_order [of st] set_scan_order [of st]
    by blast
qed

lemma consumer_ok_flags:
  "consumer_ok st \<Longrightarrow> length u = PIPELINE_LEN \<Longrightarrow> consumer_ok (st\<lparr>unproc := u\<rparr>)"
  by (simp add: consumer_ok_def config_ok_def)

theorem C5_drain_scan_witness:
  "consumer_ok ((started init_state)\<lparr>unproc := (replicate PIPELINE_LEN False)[3 := True]\<rparr>) \<and>
   scan_order ((started init_state)\<lparr>unproc := (replicate PIPELINE_LEN False)[3 := True]\<rparr>) ! 0 = 10 \<and>
   (\<exists>st'. process (\<lambda>xs k. 0) (\<lambda>n. SinkOK)
        ((started init_state)\<lparr>unproc := (replicate PIPELINE_LEN False)[3 := True]\<rparr>) = Inr st' \<and>
      unproc st' = replicate PIPELINE_LEN False \<and> ibptr st' = 0)"
proof -
  let ?S = "(started init_state)\<lparr>unproc := (replicate PIPELINE_LEN False)[3 := True]\<rparr>"
  have ok: "consumer_ok ?S"
    by (rule consumer_ok_flags [OF consumer_ok_started_init]) simp
  from C5_drain_scan [OF ok, of "\<lambda>xs k. 0" "\<lambda>n. SinkOK"]
  have "scan_order ?S ! 0 = (ibptr ?S + PIPELINE_LEN div 10) mod PIPELINE_LEN"
    and "\<exists>st'. process (\<lambda>xs k. 0) (\<lambda>n. SinkOK) ?S = Inr st' \<and> consumer_ok st' \<and>
        unproc st' = replicate PIPELINE_LEN False \<and> ibptr st' = ibptr ?S"
    by blast+
  with ok show ?thesis by (auto simp: PIPELINE_LEN_def)
qed

text \<open>
  The write pointer is 0. With slot 90 alone ready, ten positions behind the write
  pointer, the first step of the scan does nothing; with slot 10 alone ready, the first
  step of the scan clears its flag.
\<close>

theorem C5_scan_start_counterexample:
  "process_slot (\<lambda>xs k. 0) (\<lambda>n. SinkOK)
     ((started init_state)\<lparr>unproc := (replicate PIPELINE_LEN False)[90 := True]\<rparr>) 0
     = Inr ((started init_state)\<lparr>unproc := (replicate PIPELINE_LEN False)[90 := True]\<rparr>) \<and>
   unproc ((started init_state)\<lparr>unproc := (replicate PIPELINE_LEN False)[10 := True]\<rparr>) ! 10 \<and>
   map_sum id (\<lambda>s. unproc s ! 10)
     (process_slot (\<lambda>xs k. 0) (\<lambda>n. SinkOK)
        ((started init_state)\<lparr>unproc := (replicate PIPELINE_LEN False)[10 := True]\<rparr>) 0)
     = Inr False"
proof -
  let ?S90 = "(started init_state)\<lparr>unproc := (replicate PIPELINE_LEN False)[90 := True]\<rparr>"
  let ?S10 = "(started init_state)\<lparr>unproc := (replicate PIPELINE_LEN False)[10 := True]\<rparr>"
  have l90: "length (unproc ?S90) = PIPELINE_LEN" and l10: "length (unproc ?S10) = PIPELINE_LEN"
    by simp_all
  have a: "process_slot (\<lambda>xs k. 0) (\<lambda>n. SinkOK) ?S90 0 = Inr ?S90"
    unfolding process_slot_eq [OF l90] by (simp add: PIPELINE_LEN_def)
  have f: "unproc ?S10 ! 10" by (simp add: PIPELINE_LEN_def)
  have ok: "consumer_ok ?S10"
    by (rule consumer_ok_flags [OF consumer_ok_started_init]) simp
  have p: "(10 :: nat) < PIPELINE_LEN" by (simp add: PIPELINE_LEN_def)
  from ingest_slot_ok [OF ok p, of "\<lambda>xs k. 0" "\<lambda>n. SinkOK"] obtain st' where
    e: "ingest_slot (\<lambda>xs k. 0) (\<lambda>n. SinkOK) ?S10 10 = Inr st'"
    and u: "unproc st' = (unproc ?S10)[10 := False]"
    by blast
  have "process_slot (\<lambda>xs k. 0) (\<lambda>n. SinkOK) ?S10 0 = Inr st'"
    unfolding process_slot_eq [OF l10] using e by (simp add: PIPELINE_LEN_def)
  moreover have "\<not> unproc st' ! 10" using u by (simp add: PIPELINE_LEN_def)
  ultimately show ?thesis using a f by simp
qed

subsection \<open>The fill index of the window\<close>

lemma SpatialDataHandler_ok:
  assumes c: "consumer_ok st" and p: "producer_ok st"
  shows "\<exists>st'. SpatialDataHandler st ds = Inr st' \<and> consumer_ok st' \<and> producer_ok st' \<and>
     aind st' = aind st \<and> avg_int_in_sec st' = avg_int_in_sec st \<and>
     csv st' = csv st \<and> ncsv st' = ncsv st"
proof -
  from SpatialDataHandler_cursors [OF p, of ds] obtain st' where
    e: "SpatialDataHandler st ds = Inr st'" and p': "producer_ok st'"
    and f: "samplerate st' = samplerate st" "aind st' = aind st" "ampspec st' = ampspec st"
      "csv st' = csv st" "ncsv st' = ncsv st" "avg_int_in_sec st' = avg_int_in_sec st"
      "maxfreq st' = maxfreq st" "max_instead_of_avg st' = max_instead_of_avg st"
    by blast
  from c p' f have "consumer_ok st'"
    by (simp add: consumer_ok_def config_ok_def producer_ok_def)
  with e p' f show ?thesis by blast
qed

lemma process_both_ok:
  assumes c: "consumer_ok st" and p: "producer_ok st"
  shows "\<exists>st'. process rfftw env st = Inr st' \<and> consumer_ok st' \<and> producer_ok st' \<and>
     avg_int_in_sec st' = avg_int_in_sec st"
proof -
  from process_ok [OF c, of rfftw env] obtain st' where
    e: "process rfftw env st = Inr st'" and c': "consumer_ok st'"
    and f: "unproc st' = replicate PIPELINE_LEN False" "ibptr st' = ibptr st"
      "rbufi st' = rbufi st" "inbuf st' = inbuf st" "samplerate st' = samplerate st"
      "avg_int_in_sec st' = avg_int_in_sec st"
    by blast
  from p f have "producer_ok st'" by (simp add: producer_ok_def)
  with e c' f show ?thesis by blast
qed

lemma run_ok:
  assumes "consumer_ok st" and "producer_ok st"
  shows "\<exists>st'. run rfftw env st es = Inr st' \<and> consumer_ok st' \<and> producer_ok st' \<and>
     avg_int_in_sec st' = avg_int_in_sec st"
  using assms
proof (induction es arbitrary: st)
  case Nil
  then show ?case by simp
next
  case (Cons ev es)
  show ?case
  proof (cases ev)
    case (Samples b)
    from SpatialDataHandler_ok [OF Cons.prems, of b] obtain s1 where
      e: "SpatialDataHandler st b = Inr s1" and ok: "consumer_ok s1" "producer_ok s1"
      and w: "avg_int_in_sec s1 = avg_int_in_sec st"
      by blast
    from Cons.IH [OF ok] e w Samples show ?thesis by simp
  next
    case Process
    from process_both_ok [OF Cons.prems, of rfftw env] obtain s1 where
      e: "process rfftw env st = Inr s1" and ok: "consumer_ok s1" "producer_ok s1"
      and w: "avg_int_in_sec s1 = avg_int_in_sec st"
      by blast
    from Cons.IH [OF ok] e w Process show ?thesis by simp
  qed
qed

text \<open>
  Claim C7. In a well-formed state, taking one ready slot into the window leaves the
  fill index below the window length: it goes up by one and nothing is emitted, or, when
  that would reach the window length, it is 0 afterwards and \<^verbatim>\<open>output_csv\<close> has been
  called once for each of the three axes (with a sink that works, one row per axis, in
  the order 0, 1, 2). After any sequence of handler and \<^verbatim>\<open>process\<close> calls the fill index
  is below the window length.
\<close>

theorem C7_fill_index_in_range:
  assumes "consumer_ok st" and "producer_ok st" and "ptr < PIPELINE_LEN"
  shows "(\<exists>st'. ingest_slot rfftw env st ptr = Inr st' \<and>
       int (aind st') < avg_int_in_sec st' \<and>
       (int (aind st) + 1 < avg_int_in_sec st \<longrightarrow>
          aind st' = aind st + 1 \<and> ncsv st' = ncsv st \<and> csv st' = csv st) \<and>
       (int (aind st) + 1 = avg_int_in_sec st \<longrightarrow>
          aind st' = 0 \<and> ncsv st' = ncsv st + 3 \<and>
          (env (ncsv st) = SinkOK \<and> env (ncsv st + 1) = SinkOK \<and> env (ncsv st + 2) = SinkOK \<longrightarrow>
             map fst (csv st') = map fst (csv st) @ [0, 1, 2]))) \<and>
     (\<exists>st''. run rfftw env st es = Inr st'' \<and> int (aind st'') < avg_int_in_sec st'')"
proof -
  from ingest_slot_ok [OF assms(1) assms(3), of rfftw env] obtain st' where
    e: "ingest_slot rfftw env st ptr = Inr st'" and ok: "consumer_ok st'"
    and a: "aind st' = (if int (aind st) + 1 = avg_int_in_sec st then 0 else aind st + 1)"
    and n: "ncsv st' = (if int (aind st) + 1 = avg_int_in_sec st then ncsv st + 3 else ncsv st)"
    and k: "int (aind st) + 1 \<noteq> avg_int_in_sec st \<longrightarrow> csv st' = csv st \<and> stdout st' = stdout st"
    and r: "int (aind st) + 1 = avg_int_in_sec st \<and> env (ncsv st) = SinkOK \<and>
      env (ncsv st + 1) = SinkOK \<and> env (ncsv st + 2) = SinkOK \<longrightarrow>
        csv st' = csv st @ [(0, emitted_row st' 0), (1, emitted_row st' 1), (2, emitted_row st' 2)]"
    by blast
  from ok have "int (aind st') < avg_int_in_sec st'" by (simp add: consumer_ok_def)
  moreover from a n k have "int (aind st) + 1 < avg_int_in_sec st \<longrightarrow>
          aind st' = aind st + 1 \<and> ncsv st' = ncsv st \<and> csv st' = csv st" by simp
  moreover from a n r have "int (aind st) + 1 = avg_int_in_sec st \<longrightarrow>
          aind st' = 0 \<and> ncsv st' = ncsv st + 3 \<and>
          (env (ncsv st) = SinkOK \<and> env (ncsv st + 1) = SinkOK \<and> env (ncsv st + 2) = SinkOK \<longrightarrow>
             map fst (csv st') = map fst (csv st) @ [0, 1, 2])" by simp
  moreover from run_ok [OF assms(1,2), of rfftw env es] obtain st'' where
    "run rfftw env st es = Inr st''" "consumer_ok st''" by blast
  then have "\<exists>st''. run rfftw env st es = Inr st'' \<and> int (aind st'') < avg_int_in_sec st''"
    by (auto simp: consumer_ok_def)
  ultimately show ?thesis using e by blast
qed


lemma producer_ok_window_example:
  assumes "0 < R"
  shows "producer_ok (window_example R mx a b)"
proof -
  let ?c = "init_state\<lparr>samplerate := R, maxfreq := 0, avg_int_in_sec := 2,
                           max_instead_of_avg := mx\<rparr>"
  have "inbuf_shape R (inbuf (started ?c))"
    using inbuf_shape_started [of ?c] assms by simp
  then show ?thesis using assms
    by (simp add: producer_ok_def window_example_def PIPELINE_LEN_def)
qed

theorem C7_fill_index_in_range_witness:
  "consumer_ok ((window_example 1000 False 4 4)\<lparr>aind := 1\<rparr>) \<and>
   producer_ok ((window_example 1000 False 4 4)\<lparr>aind := 1\<rparr>) \<and>
   (0 :: nat) < PIPELINE_LEN \<and>
   int (aind ((window_example 1000 False 4 4)\<lparr>aind := 1\<rparr>)) + 1
     = avg_int_in_sec ((window_example 1000 False 4 4)\<lparr>aind := 1\<rparr>) \<and>
   (\<exists>st'. ingest_slot (\<lambda>xs k. 0) (\<lambda>n. SinkOK) ((window_example 1000 False 4 4)\<lparr>aind := 1\<rparr>) 0
        = Inr st' \<and>
      aind st' = 0 \<and> ncsv st' = 3 \<and> map fst (csv st') = [0, 1, 2]) \<and>
   (\<exists>st''. run (\<lambda>xs k. 0) (\<lambda>n. SinkOK) ((window_example 1000 False 4 4)\<lparr>aind := 1\<rparr>)
        [Samples [(0, 0, 1)], Process] = Inr st'' \<and>
      int (aind st'') < avg_int_in_sec st'')"
proof -
  let ?S = "(window_example 1000 False 4 4)\<lparr>aind := 1\<rparr>"
  have c0: "consumer_ok (window_example 1000 False 4 4)"
    by (rule consumer_ok_window_example) simp_all
  then have c: "consumer_ok ?S" by (simp add: consumer_ok_def config_ok_def)
  have p0: "producer_ok (window_example 1000 False 4 4)"
    by (rule producer_ok_window_example) simp
  then have p: "producer_ok ?S" by (simp add: producer_ok_def)
  have l: "(0 :: nat) < PIPELINE_LEN" by (simp add: PIPELINE_LEN_def)
  have w: "int (aind ?S) + 1 = avg_int_in_sec ?S" by simp
  from C7_fill_index_in_range [OF c p l, of "\<lambda>xs k. 0" "\<lambda>n. SinkOK" "[Samples [(0, 0, 1)], Process]"]
  obtain st' st'' where
    e: "ingest_slot (\<lambda>xs k. 0) (\<lambda>n. SinkOK) ?S 0 = Inr st'"
    and i: "int (aind ?S) + 1 = avg_int_in_sec ?S \<longrightarrow>
          aind st' = 0 \<and> ncsv st' = ncsv ?S + 3 \<and>
          (SinkOK = SinkOK \<and> SinkOK = SinkOK \<and> SinkOK = SinkOK \<longrightarrow>
             map fst (csv st') = map fst (csv ?S) @ [0, 1, 2])"
    and r: "run (\<lambda>xs k. 0) (\<lambda>n. SinkOK) ?S [Samples [(0, 0, 1)], Process] = Inr st''"
      "int (aind st'') < avg_int_in_sec st''"
    by blast
  from i w have "aind st' = 0" "ncsv st' = 3" "map fst (csv st') = [0, 1, 2]" by simp_all
  with e have A: "\<exists>st'. ingest_slot (\<lambda>xs k. 0) (\<lambda>n. SinkOK) ?S 0 = Inr st' \<and>
      aind st' = 0 \<and> ncsv st' = 3 \<and> map fst (csv st') = [0, 1, 2]"
    by (intro exI [of _ st'] conjI)
  from r have B: "\<exists>st''. run (\<lambda>xs k. 0) (\<lambda>n. SinkOK) ?S [Samples [(0, 0, 1)], Process] = Inr st'' \<and>
      int (aind st'') < avg_int_in_sec st''"
    by (intro exI [of _ st''] conjI)
  from c p l w A B show ?thesis by - (intro conjI, assumption+)
qed

subsection \<open>Less than one second of events\<close>

lemma process_from_idle:
  assumes "unproc st = replicate PIPELINE_LEN False"
  shows "process_from rfftw env st ks = Inr st"
proof (induction ks)
  case Nil
  show ?case by simp
next
  case (Cons k ks)
  from assms have l: "length (unproc st) = PIPELINE_LEN" by simp
  have "(ibptr st + PIPELINE_LEN div 10 + k) mod PIPELINE_LEN < PIPELINE_LEN"
    by (simp add: PIPELINE_LEN_def)
  then have "\<not> unproc st ! ((ibptr st + PIPELINE_LEN div 10 + k) mod PIPELINE_LEN)"
    by (simp add: assms)
  then have "process_slot rfftw env st k = Inr st" by (simp add: process_slot_eq [OF l])
  with Cons.IH show ?case by simp
qed

lemma process_idle:
  "unproc st = replicate PIPELINE_LEN False \<Longrightarrow> process rfftw env st = Inr st"
  by (simp add: process_def process_from_idle)

lemma after_samples_idle:
  assumes "after_samples t st" and "t < nat (samplerate st)"
  shows "unproc st = replicate PIPELINE_LEN False \<and> stdout st = [] \<and> rbufi st = t"
  using assms
  by (simp add: after_samples_def map_replicate_const PIPELINE_LEN_def)

lemma run_partial_second:
  assumes "after_samples t st"
    and "t + sum_list (map samples_of es) < nat (samplerate st)"
  shows "\<exists>st'. run rfftw env st es = Inr st' \<and>
     after_samples (t + sum_list (map samples_of es)) st' \<and>
     samplerate st' = samplerate st \<and> csv st' = csv st \<and> ncsv st' = ncsv st"
  using assms
proof (induction es arbitrary: t st)
  case Nil
  then show ?case by simp
next
  case (Cons ev es)
  show ?case
  proof (cases ev)
    case (Samples b)
    from SpatialDataHandler_after [OF Cons.prems(1), of b] obtain s1 where
      e: "SpatialDataHandler st b = Inr s1" and a: "after_samples (t + length b) s1"
      and f: "samplerate s1 = samplerate st" "csv s1 = csv st" "ncsv s1 = ncsv st"
      by blast
    from Cons.prems(2) Samples f
    have "t + length b + sum_list (map samples_of es) < nat (samplerate s1)" by simp
    from Cons.IH [OF a this] e f Samples show ?thesis by (simp add: add.assoc)
  next
    case Process
    from Cons.prems(2) have "t < nat (samplerate st)" by simp
    from after_samples_idle [OF Cons.prems(1) this]
    have "process rfftw env st = Inr st" by (simp add: process_idle)
    moreover from Cons.prems(2) Process
    have "t + sum_list (map samples_of es) < nat (samplerate st)" by simp
    from Cons.IH [OF Cons.prems(1) this]
    obtain st' where "run rfftw env st es = Inr st'"
      "after_samples (t + sum_list (map samples_of es)) st'"
      "samplerate st' = samplerate st" "csv st' = csv st" "ncsv st' = ncsv st"
      by blast
    ultimately show ?thesis using Process by simp
  qed
qed

text \<open>
  Claim C8. From the empty pipeline with the sample rate 100, after 99 events in all,
  delivered in any batches with any calls of \<^verbatim>\<open>process\<close> between them, no slot is ready,
  no row has been written, \<^verbatim>\<open>output_csv\<close> has not been called and nothing has been
  printed; the 99 events sit in the slot being written.
\<close>

theorem C8_partial_second:
  assumes "empty_pipeline st" and "samplerate st = 100"
    and "sum_list (map samples_of es) = 99"
  shows "\<exists>st'. run rfftw env st es = Inr st' \<and>
     unproc st' = replicate PIPELINE_LEN False \<and> ready_count st' = 0 \<and>
     csv st' = [] \<and> ncsv st' = 0 \<and> stdout st' = [] \<and> overruns st' = 0 \<and>
     ibptr st' = 0 \<and> rbufi st' = 99"
proof -
  from assms(2,3) have lt: "0 + sum_list (map samples_of es) < nat (samplerate st)" by simp
  from run_partial_second [OF empty_pipeline_after [OF assms(1)] lt, of rfftw env]
  obtain st' where e: "run rfftw env st es = Inr st'" and a: "after_samples 99 st'"
    and f: "samplerate st' = 100" "csv st' = csv st" "ncsv st' = ncsv st"
    using assms(2,3) by auto
  from f have "(99 :: nat) < nat (samplerate st')" by simp
  from after_samples_idle [OF a this]
  have i: "unproc st' = replicate PIPELINE_LEN False" "stdout st' = []" "rbufi st' = 99"
    by simp_all
  from a f have "ibptr st' = 0" by (simp add: after_samples_def)
  moreover from i have "ready_count st' = 0" "overruns st' = 0"
    by (simp_all add: ready_count_def overruns_def)
  moreover from assms(1) f have "csv st' = []" "ncsv st' = 0"
    by (simp_all add: empty_pipeline_def)
  ultimately show ?thesis using e i by blast
qed

theorem C8_partial_second_witness:
  "empty_pipeline (started (init_state\<lparr>samplerate := 100\<rparr>)) \<and>
   samplerate (started (init_state\<lparr>samplerate := 100\<rparr>)) = 100 \<and>
   sum_list (map samples_of
     [Samples (replicate 40 (0, 0, 1)), Process, Samples (replicate 59 (0, 0, 1)), Process]) = 99 \<and>
   (\<exists>st'. run (\<lambda>xs k. 0) (\<lambda>n. SinkOK) (started (init_state\<lparr>samplerate := 100\<rparr>))
        [Samples (replicate 40 (0, 0, 1)), Process, Samples (replicate 59 (0, 0, 1)), Process]
        = Inr st' \<and>
      ready_count st' = 0 \<and> csv st' = [] \<and> ncsv st' = 0 \<and> stdout st' = [] \<and> rbufi st' = 99)"
proof -
  let ?S = "started (init_state\<lparr>samplerate := 100\<rparr>)"
  let ?es = "[Samples (replicate 40 (0, 0, 1)), Process, Samples (replicate 59 (0, 0, 1)), Process]"
  have h: "empty_pipeline ?S" by (rule empty_pipeline_started) simp
  have r: "samplerate ?S = 100" by simp
  have n: "sum_list (map samples_of ?es) = 99" by simp
  from C8_partial_second [OF h r n, of "\<lambda>xs k. 0" "\<lambda>n. SinkOK"] obtain st' where
    "run (\<lambda>xs k. 0) (\<lambda>n. SinkOK) ?S ?es = Inr st'"
    "ready_count st' = 0" "csv st' = []" "ncsv st' = 0" "stdout st' = []" "rbufi st' = 99"
    by blast
  then have "\<exists>st'. run (\<lambda>xs k. 0) (\<lambda>n. SinkOK) ?S ?es = Inr st' \<and>
      ready_count st' = 0 \<and> csv st' = [] \<and> ncsv st' = 0 \<and> stdout st' = [] \<and> rbufi st' = 99"
    by (intro exI [of _ st'] conjI)
  with h r n show ?thesis by - (intro conjI, assumption+)
qed

end
